theory Spec2Isabelle
  imports Complex_Main
begin

section \<open>Data model\<close>

text \<open>
  The exceptions the routing program can raise. Every place where the Python source
  would raise is a branch of the model that yields one of these.
\<close>

datatype error =
    AttributeError
  | IndexError
  | KeyError
  | ValueError
  | ZeroDivisionError
  | EOFError

text \<open>
  A \<open>datetime\<close> of the day of the run is the number of microseconds since that day's
  midnight; a \<open>timedelta\<close> is a number of microseconds. Distances (\<open>float\<close> in the
  source) are rationals: the comparisons of the source are exact on them, and its
  additions and divisions are taken without rounding.
\<close>

type_synonym datetime = int
type_synonym timedelta = int

record Package =
  p_id :: int
  p_address :: string
  p_city :: string
  p_state :: string
  p_zip :: string
  p_mass :: string
  p_group :: int
  p_req_truck :: int
  p_status :: string
  time_available :: datetime
  time_pickup :: datetime
  time_delivered :: datetime
  deadline :: datetime
  loc_id :: int

record Location =
  l_loc_id :: int
  l_name :: string
  l_address :: string
  distances :: "rat list"

record Truck =
  truck_id :: int
  packages :: "int list"
  distance_traveled :: rat
  location_id :: int
  truck_time :: datetime
  rate :: rat

section \<open>ChainHashTable\<close>

record 'v ChainHashTable =
  table :: "(int \<times> 'v) list list"

text \<open>\<open>__init__\<close>: one empty bucket per index of \<open>range(initial_capacity)\<close>.\<close>

definition ChainHashTable_init :: "int \<Rightarrow> 'v ChainHashTable" where
  "ChainHashTable_init initial_capacity = \<lparr>table = replicate (nat initial_capacity) []\<rparr>"

text \<open>
  Python's \<open>hash\<close> on an \<open>int\<close>: the sign times the magnitude modulo \<open>2^61 - 1\<close>, with
  \<open>-1\<close> (the error value of the C API) replaced by \<open>-2\<close>.
\<close>

definition py_hash :: "int \<Rightarrow> int" where
  "py_hash key =
     (let h = (if 0 \<le> key then key mod (2 ^ 61 - 1) else - ((- key) mod (2 ^ 61 - 1)))
      in if h = - 1 then - 2 else h)"

text \<open>\<open>hash(key) % len(self.table)\<close>; the modulus by zero raises.\<close>

definition bucket_of :: "'v ChainHashTable \<Rightarrow> int \<Rightarrow> error + nat" where
  "bucket_of self key =
     (if length (table self) = 0 then Inl ZeroDivisionError
      else Inr (nat (py_hash key mod int (length (table self)))))"

text \<open>
  The loop of \<open>insert\<close> over one bucket: the first pair with the key gets the new item,
  and a bucket without the key gets the pair appended.
\<close>

fun bucket_insert :: "(int \<times> 'v) list \<Rightarrow> int \<Rightarrow> 'v \<Rightarrow> (int \<times> 'v) list" where
  "bucket_insert [] key item = [(key, item)]"
| "bucket_insert (kv # bucket_list) key item =
     (if fst kv = key then (fst kv, item) # bucket_list
      else kv # bucket_insert bucket_list key item)"

definition ChainHashTable_insert ::
  "'v ChainHashTable \<Rightarrow> int \<Rightarrow> 'v \<Rightarrow> error + 'v ChainHashTable" where
  "ChainHashTable_insert self key item =
     (case bucket_of self key of
        Inl e \<Rightarrow> Inl e
      | Inr bucket \<Rightarrow>
          Inr (self\<lparr>table := (table self)[bucket := bucket_insert (table self ! bucket) key item]\<rparr>))"

text \<open>The loop of \<open>search\<close> over one bucket; \<open>None\<close> is Python's \<open>None\<close>.\<close>

fun bucket_search :: "(int \<times> 'v) list \<Rightarrow> int \<Rightarrow> 'v option" where
  "bucket_search [] key = None"
| "bucket_search (kv # bucket_list) key =
     (if fst kv = key then Some (snd kv) else bucket_search bucket_list key)"

definition ChainHashTable_search :: "'v ChainHashTable \<Rightarrow> int \<Rightarrow> error + 'v option" where
  "ChainHashTable_search self key =
     (case bucket_of self key of
        Inl e \<Rightarrow> Inl e
      | Inr bucket \<Rightarrow> Inr (bucket_search (table self ! bucket) key))"

text \<open>A sequence of \<open>insert\<close> calls, stopping at the first one that raises.\<close>

fun insert_all :: "'v ChainHashTable \<Rightarrow> (int \<times> 'v) list \<Rightarrow> error + 'v ChainHashTable" where
  "insert_all self [] = Inr self"
| "insert_all self (kv # kvs) =
     (case ChainHashTable_insert self (fst kv) (snd kv) of
        Inl e \<Rightarrow> Inl e
      | Inr self' \<Rightarrow> insert_all self' kvs)"

section \<open>Module state and Python primitives\<close>

text \<open>
  The module-level names of the program that the Truck methods and \<open>route_packages\<close>
  read and write.
\<close>

record Globals =
  locations :: "Location list"
  priority_packages :: "int list"
  non_priority_packages :: "int list"
  group_count_dictionary :: "int \<rightharpoonup> int"
  my_hash_packages :: "Package ChainHashTable"

text \<open>
  What a call that changes state leaves behind: the state on return, or the exception
  together with the state at the moment it was raised (the source catches none of them,
  so the state of a raise is the last one of the run).
\<close>

datatype 's outcome = Return 's | Raise error 's

fun final :: "'s outcome \<Rightarrow> 's" where
  "final (Return s) = s"
| "final (Raise e s) = s"

text \<open>
  \<open>xs[i]\<close>: an index from \<open>0\<close> up to the length reads from the front, one from
  \<open>-len(xs)\<close> up to \<open>-1\<close> reads from the back, any other raises.
\<close>

definition py_index :: "'a list \<Rightarrow> int \<Rightarrow> error + 'a" where
  "py_index xs i =
     (if 0 \<le> i \<and> i < int (length xs) then Inr (xs ! nat i)
      else if i < 0 \<and> - int (length xs) \<le> i then Inr (xs ! nat (int (length xs) + i))
      else Inl IndexError)"

text \<open>\<open>float(locations[a].distances[b])\<close>\<close>

definition lookup_distance :: "Globals \<Rightarrow> int \<Rightarrow> int \<Rightarrow> error + rat" where
  "lookup_distance g a b =
     (case py_index (locations g) a of
        Inl e \<Rightarrow> Inl e
      | Inr location \<Rightarrow> py_index (distances location) b)"

text \<open>
  \<open>datetime.timedelta(seconds=s)\<close> keeps whole microseconds, rounding half to even.
\<close>

definition round_half_even :: "rat \<Rightarrow> int" where
  "round_half_even x =
     (let f = \<lfloor>x\<rfloor>; d = x - of_int f
      in if d < 1 / 2 then f
         else if 1 / 2 < d then f + 1
         else if even f then f else f + 1)"

definition timedelta_seconds :: "rat \<Rightarrow> timedelta" where
  "timedelta_seconds s = round_half_even (s * 1000000)"

text \<open>
  Attribute assignment on the object that \<open>search\<close> returned for a key: the first pair
  with the key in its bucket then holds the changed object, which is what \<open>insert\<close>
  writes. (No object is stored under two keys: \<open>load_package_data\<close> makes a new one for
  every row.)
\<close>

definition update_found :: "'v ChainHashTable \<Rightarrow> int \<Rightarrow> 'v \<Rightarrow> 'v ChainHashTable" where
  "update_found self key item =
     (case ChainHashTable_insert self key item of Inl e \<Rightarrow> self | Inr self' \<Rightarrow> self')"

section \<open>Truck\<close>

definition Truck_init :: "int \<Rightarrow> datetime \<Rightarrow> Truck" where
  "Truck_init t_id t_time =
     \<lparr>truck_id = t_id, packages = [], distance_traveled = 0, location_id = 0,
      truck_time = t_time, rate = 18\<rparr>"

definition load_package :: "Truck \<Rightarrow> int \<Rightarrow> Globals \<Rightarrow> (Truck \<times> Globals) outcome" where
  "load_package self package_id g =
     (case ChainHashTable_search (my_hash_packages g) package_id of
        Inl e \<Rightarrow> Raise e (self, g)
      | Inr None \<Rightarrow> Raise AttributeError (self, g)
      | Inr (Some loaded_package) \<Rightarrow>
          Return
            (self\<lparr>packages := packages self @ [package_id]\<rparr>,
             g\<lparr>my_hash_packages :=
                 update_found (my_hash_packages g) package_id
                   (loaded_package\<lparr>time_pickup := truck_time self\<rparr>)\<rparr>))"

text \<open>
  The inner loop of \<open>load_truck\<close>: every id of the priority list whose package has the
  group id is loaded.
\<close>

fun load_group :: "int list \<Rightarrow> int \<Rightarrow> Truck \<Rightarrow> Globals \<Rightarrow> (Truck \<times> Globals) outcome" where
  "load_group [] group_id self g = Return (self, g)"
| "load_group (pack_id # rest) group_id self g =
     (case ChainHashTable_search (my_hash_packages g) pack_id of
        Inl e \<Rightarrow> Raise e (self, g)
      | Inr None \<Rightarrow> Raise AttributeError (self, g)
      | Inr (Some package_with_group) \<Rightarrow>
          if p_group package_with_group = group_id then
            (case load_package self pack_id g of
               Return (self', g') \<Rightarrow> load_group rest group_id self' g'
             | Raise e s \<Rightarrow> Raise e s)
          else load_group rest group_id self g)"

text \<open>
  The first loop of \<open>load_truck\<close>, over the ids of the priority list still to visit;
  the whole list is kept for the group scan.
\<close>

fun load_priority ::
  "int list \<Rightarrow> int list \<Rightarrow> Truck \<Rightarrow> Globals \<Rightarrow> (Truck \<times> Globals) outcome" where
  "load_priority priority_packages_list [] self g = Return (self, g)"
| "load_priority priority_packages_list (p # rest) self g =
     (if length (packages self) = 16 then Return (self, g)
      else if p \<in> set (packages self) then load_priority priority_packages_list rest self g
      else
        (case ChainHashTable_search (my_hash_packages g) p of
           Inl e \<Rightarrow> Raise e (self, g)
         | Inr None \<Rightarrow> Raise AttributeError (self, g)
         | Inr (Some package) \<Rightarrow>
             if p_req_truck package = truck_id self \<or> p_req_truck package = 0 then
               if time_available package \<le> truck_time self then
                 if p_group package = 0 then
                   (case load_package self p g of
                      Return (self', g') \<Rightarrow> load_priority priority_packages_list rest self' g'
                    | Raise e s \<Rightarrow> Raise e s)
                 else
                   (case group_count_dictionary g (p_group package) of
                      None \<Rightarrow> Raise KeyError (self, g)
                    | Some group_count \<Rightarrow>
                        if int (length (packages self)) + group_count \<le> 16 then
                          (case load_group priority_packages_list (p_group package) self g of
                             Return (self', g') \<Rightarrow>
                               load_priority priority_packages_list rest self' g'
                           | Raise e s \<Rightarrow> Raise e s)
                        else load_priority priority_packages_list rest self g)
               else load_priority priority_packages_list rest self g
             else load_priority priority_packages_list rest self g))"

text \<open>The second loop of \<open>load_truck\<close>, over the non-priority list.\<close>

fun load_non_priority :: "int list \<Rightarrow> Truck \<Rightarrow> Globals \<Rightarrow> (Truck \<times> Globals) outcome" where
  "load_non_priority [] self g = Return (self, g)"
| "load_non_priority (p # rest) self g =
     (if length (packages self) = 16 then Return (self, g)
      else
        (case ChainHashTable_search (my_hash_packages g) p of
           Inl e \<Rightarrow> Raise e (self, g)
         | Inr None \<Rightarrow> Raise AttributeError (self, g)
         | Inr (Some package) \<Rightarrow>
             if time_available package \<le> truck_time self then
               (case load_package self (p_id package) g of
                  Return (self', g') \<Rightarrow> load_non_priority rest self' g'
                | Raise e s \<Rightarrow> Raise e s)
             else load_non_priority rest self g))"

definition load_truck ::
  "Truck \<Rightarrow> int list \<Rightarrow> int list \<Rightarrow> Globals \<Rightarrow> (Truck \<times> Globals) outcome" where
  "load_truck self priority_packages_list non_priority_packages_list g =
     (case load_priority priority_packages_list priority_packages_list self g of
        Return (self', g') \<Rightarrow> load_non_priority non_priority_packages_list self' g'
      | Raise e s \<Rightarrow> Raise e s)"

text \<open>
  The loop of \<open>find_shortest_distance\<close> with its two variables \<open>min_distance\<close> and
  \<open>package_id\<close>, which start at \<open>100\<close> and \<open>-1\<close>.
\<close>

fun find_shortest_loop :: "Truck \<Rightarrow> Globals \<Rightarrow> int list \<Rightarrow> rat \<Rightarrow> int \<Rightarrow> error + int" where
  "find_shortest_loop self g [] min_distance package_id = Inr package_id"
| "find_shortest_loop self g (package # rest) min_distance package_id =
     (case ChainHashTable_search (my_hash_packages g) package of
        Inl e \<Rightarrow> Inl e
      | Inr None \<Rightarrow> Inl AttributeError
      | Inr (Some found) \<Rightarrow>
          (case lookup_distance g (location_id self) (loc_id found) of
             Inl e \<Rightarrow> Inl e
           | Inr package_distance \<Rightarrow>
               if package_distance < min_distance
               then find_shortest_loop self g rest package_distance package
               else find_shortest_loop self g rest min_distance package_id))"

definition find_shortest_distance :: "Truck \<Rightarrow> Globals \<Rightarrow> error + int" where
  "find_shortest_distance self g = find_shortest_loop self g (packages self) 100 (- 1)"

text \<open>
  The leg that \<open>increment_time_and_distance\<close> and \<open>return_to_hub\<close> both drive: the
  distance from the truck's location to a location id is looked up, then clock,
  odometer and location are written.
\<close>

definition drive_to :: "Truck \<Rightarrow> int \<Rightarrow> Globals \<Rightarrow> (Truck \<times> Globals) outcome" where
  "drive_to self destination g =
     (case lookup_distance g (location_id self) destination of
        Inl e \<Rightarrow> Raise e (self, g)
      | Inr distance \<Rightarrow>
          if rate self = 0 then Raise ZeroDivisionError (self, g)
          else
            let time_traveled = timedelta_seconds (distance / rate self * 3600)
            in Return
                 (self\<lparr>truck_time := truck_time self + time_traveled,
                       distance_traveled := distance_traveled self + distance,
                       location_id := destination\<rparr>,
                  g))"

definition increment_time_and_distance ::
  "Truck \<Rightarrow> int \<Rightarrow> Globals \<Rightarrow> (Truck \<times> Globals) outcome" where
  "increment_time_and_distance self package_id g =
     (case ChainHashTable_search (my_hash_packages g) package_id of
        Inl e \<Rightarrow> Raise e (self, g)
      | Inr None \<Rightarrow> Raise AttributeError (self, g)
      | Inr (Some package) \<Rightarrow> drive_to self (loc_id package) g)"

definition deliver_package :: "Truck \<Rightarrow> int \<Rightarrow> Globals \<Rightarrow> (Truck \<times> Globals) outcome" where
  "deliver_package self package_id g =
     (case ChainHashTable_search (my_hash_packages g) package_id of
        Inl e \<Rightarrow> Raise e (self, g)
      | Inr None \<Rightarrow> Raise AttributeError (self, g)
      | Inr (Some delivered_package) \<Rightarrow>
          let g1 = g\<lparr>my_hash_packages :=
                      update_found (my_hash_packages g) package_id
                        (delivered_package\<lparr>time_delivered := truck_time self\<rparr>)\<rparr>
          in (case increment_time_and_distance self package_id g1 of
                Raise e s \<Rightarrow> Raise e s
              | Return (self', g') \<Rightarrow>
                  if package_id \<in> set (packages self')
                  then Return (self'\<lparr>packages := remove1 package_id (packages self')\<rparr>, g')
                  else Raise ValueError (self', g')))"

definition return_to_hub :: "Truck \<Rightarrow> Globals \<Rightarrow> (Truck \<times> Globals) outcome" where
  "return_to_hub self g = drive_to self 0 g"

section \<open>Loading the input data\<close>

text \<open>
  The rows of the two input files are taken as parsed: a location row as the
  \<open>Location\<close> built from it, a package row as the \<open>Package\<close> built from it before its
  location id is resolved (the row's \<open>loc_id\<close> is not read).
\<close>

definition load_location_data :: "Location list \<Rightarrow> Globals \<Rightarrow> Globals" where
  "load_location_data rows g = g\<lparr>locations := locations g @ rows\<rparr>"

text \<open>Python's \<open>needle in haystack\<close> on strings.\<close>

fun py_in :: "string \<Rightarrow> string \<Rightarrow> bool" where
  "py_in needle [] = (needle = [])"
| "py_in needle (c # cs) = (take (length needle) (c # cs) = needle \<or> py_in needle cs)"

text \<open>
  The loop that resolves a package's location id: it starts at \<open>-1\<close> and every location
  whose address contains the package's address overwrites it.
\<close>

fun resolve_loc_id :: "Location list \<Rightarrow> string \<Rightarrow> int \<Rightarrow> int" where
  "resolve_loc_id [] address found = found"
| "resolve_loc_id (location # rest) address found =
     resolve_loc_id rest address
       (if py_in address (l_address location) then l_loc_id location else found)"

text \<open>\<open>datetime.time(23, 59, 59)\<close> of the day of the run.\<close>

definition end_of_day :: datetime where
  "end_of_day = ((23 * 60 + 59) * 60 + 59) * 1000000"

text \<open>The body of the loop of \<open>load_package_data\<close> for one row.\<close>

definition load_package_row :: "Package \<Rightarrow> int \<times> Globals \<Rightarrow> (int \<times> Globals) outcome" where
  "load_package_row row s =
     (let num_of_packages = fst s; g = snd s;
          p = row\<lparr>loc_id := resolve_loc_id (locations g) (p_address row) (- 1)\<rparr>
      in case ChainHashTable_insert (my_hash_packages g) (p_id p) p of
           Inl e \<Rightarrow> Raise e s
         | Inr hash_packages \<Rightarrow>
             let g1 = g\<lparr>my_hash_packages := hash_packages\<rparr>;
                 g2 = (if p_group p \<noteq> 0 then
                         g1\<lparr>group_count_dictionary :=
                              (group_count_dictionary g1)
                                (p_group p \<mapsto>
                                   (case group_count_dictionary g1 (p_group p) of
                                      Some n \<Rightarrow> n + 1
                                    | None \<Rightarrow> 1))\<rparr>
                       else g1);
                 g3 = (if deadline p < end_of_day \<or> p_req_truck p \<noteq> 0 \<or> p_group p \<noteq> 0
                       then g2\<lparr>priority_packages := priority_packages g2 @ [p_id p]\<rparr>
                       else g2\<lparr>non_priority_packages := non_priority_packages g2 @ [p_id p]\<rparr>)
             in Return (num_of_packages + 1, g3))"

fun load_package_rows :: "Package list \<Rightarrow> int \<times> Globals \<Rightarrow> (int \<times> Globals) outcome" where
  "load_package_rows [] s = Return s"
| "load_package_rows (row # rows) s =
     (case load_package_row row s of
        Return s' \<Rightarrow> load_package_rows rows s'
      | Raise e s' \<Rightarrow> Raise e s')"

definition load_package_data :: "Package list \<Rightarrow> Globals \<Rightarrow> (int \<times> Globals) outcome" where
  "load_package_data rows g = load_package_rows rows (0, g)"

text \<open>The module's variables as its top level creates them, before any file is read.\<close>

definition empty_globals :: Globals where
  "empty_globals =
     \<lparr>locations = [], priority_packages = [], non_priority_packages = [],
      group_count_dictionary = Map.empty, my_hash_packages = ChainHashTable_init 10\<rparr>"

text \<open>
  The top level up to the call of \<open>route_packages\<close>: locations, then packages; the
  number of packages comes with the state.
\<close>

definition startup :: "Location list \<Rightarrow> Package list \<Rightarrow> (int \<times> Globals) outcome" where
  "startup location_rows package_rows =
     load_package_data package_rows (load_location_data location_rows empty_globals)"

text \<open>The start of the day at hour \<open>h\<close>, minute \<open>m\<close>, second \<open>s\<close>.\<close>

definition time_of_day :: "int \<Rightarrow> int \<Rightarrow> int \<Rightarrow> datetime" where
  "time_of_day h m s = ((h * 60 + m) * 60 + s) * 1000000"

definition truck_1 :: Truck where "truck_1 = Truck_init 1 (time_of_day 8 0 0)"
definition truck_2 :: Truck where "truck_2 = Truck_init 2 (time_of_day 9 5 0)"
definition truck_list :: "Truck list" where "truck_list = [truck_1, truck_2]"

section \<open>route\_packages\<close>

text \<open>
  \<open>route_packages\<close> is three nested loops around the Truck methods, and the outer one
  need not end. It is modelled as a machine whose step is one Truck method call (or one
  loop test): the control points are the head of the \<open>while\<close> loop, the head of the
  \<open>for\<close> loop with the index of the next truck, and the head of the inner \<open>while\<close> loop
  of the truck being drained. A run that returns reaches \<open>Finished\<close>; an uncaught
  exception stops it in \<open>Aborted\<close>.
\<close>

datatype control = AtWhile | AtFor nat | AtDrain nat | Finished | Aborted error

record Config =
  control :: control
  trucks :: "Truck list"
  globals :: Globals

text \<open>
  The removal of the chosen id from the pool that holds it (first occurrence, as
  \<open>list.remove\<close> does).
\<close>

definition pool_remove :: "int \<Rightarrow> Globals \<Rightarrow> Globals" where
  "pool_remove deliver g =
     (if deliver \<in> set (priority_packages g)
      then g\<lparr>priority_packages := remove1 deliver (priority_packages g)\<rparr>
      else if deliver \<in> set (non_priority_packages g)
      then g\<lparr>non_priority_packages := remove1 deliver (non_priority_packages g)\<rparr>
      else g)"

text \<open>The state a method call on truck \<open>i\<close> leaves, with the control point to go to.\<close>

definition after_call ::
  "Config \<Rightarrow> nat \<Rightarrow> control \<Rightarrow> (Truck \<times> Globals) outcome \<Rightarrow> Config" where
  "after_call c i next_control r =
     (case r of
        Return (truck, g) \<Rightarrow>
          \<lparr>control = next_control, trucks = (trucks c)[i := truck], globals = g\<rparr>
      | Raise e (truck, g) \<Rightarrow>
          \<lparr>control = Aborted e, trucks = (trucks c)[i := truck], globals = g\<rparr>)"

definition route_step :: "Config \<Rightarrow> Config" where
  "route_step c =
     (case control c of
        AtWhile \<Rightarrow>
          if priority_packages (globals c) \<noteq> [] \<or> non_priority_packages (globals c) \<noteq> []
          then c\<lparr>control := AtFor 0\<rparr>
          else c\<lparr>control := Finished\<rparr>
      | AtFor i \<Rightarrow>
          if i < length (trucks c) then
            after_call c i (AtDrain i)
              (load_truck (trucks c ! i) (priority_packages (globals c))
                 (non_priority_packages (globals c)) (globals c))
          else c\<lparr>control := AtWhile\<rparr>
      | AtDrain i \<Rightarrow>
          if packages (trucks c ! i) \<noteq> [] then
            (case find_shortest_distance (trucks c ! i) (globals c) of
               Inl e \<Rightarrow> c\<lparr>control := Aborted e\<rparr>
             | Inr deliver \<Rightarrow>
                 after_call c i (AtDrain i)
                   (deliver_package (trucks c ! i) deliver (pool_remove deliver (globals c))))
          else after_call c i (AtFor (Suc i)) (return_to_hub (trucks c ! i) (globals c))
      | Finished \<Rightarrow> c
      | Aborted e \<Rightarrow> c)"

text \<open>The state after \<open>n\<close> steps.\<close>

fun run :: "nat \<Rightarrow> Config \<Rightarrow> Config" where
  "run 0 c = c"
| "run (Suc n) c = run n (route_step c)"

text \<open>The state in which \<open>route_packages(trucks)\<close> is entered.\<close>

definition route_packages_entry :: "Truck list \<Rightarrow> Globals \<Rightarrow> Config" where
  "route_packages_entry ts g = \<lparr>control = AtWhile, trucks = ts, globals = g\<rparr>"

text \<open>
  The call \<open>route_packages(trucks)\<close> observed for \<open>n\<close> steps: what it returned or raised
  by then, and \<open>None\<close> while it is still running.
\<close>

definition route_packages ::
  "nat \<Rightarrow> Truck list \<Rightarrow> Globals \<Rightarrow> (Truck list \<times> Globals) outcome option" where
  "route_packages n ts g =
     (let c = run n (route_packages_entry ts g)
      in case control c of
           Finished \<Rightarrow> Some (Return (trucks c, globals c))
         | Aborted e \<Rightarrow> Some (Raise e (trucks c, globals c))
         | _ \<Rightarrow> None)"

section \<open>The interactive queries\<close>

datatype Statuses = UNAVAILABLE | DEPOT | EN_ROUTE | DELIVERED

fun label :: "Statuses \<Rightarrow> string" where
  "label UNAVAILABLE = ''Package Unavailable''"
| "label DEPOT = ''In Depot''"
| "label EN_ROUTE = ''En Route''"
| "label DELIVERED = ''Delivered''"

text \<open>
  The chain of comparisons that both options print a package's status with (the source
  has the same chain twice).
\<close>

definition package_status :: "datetime \<Rightarrow> Package \<Rightarrow> Statuses" where
  "package_status user_time package =
     (if user_time < time_available package then UNAVAILABLE
      else if user_time < time_pickup package then DEPOT
      else if user_time < time_delivered package then EN_ROUTE
      else DELIVERED)"

text \<open>
  The user's lines, each as what \<open>int(input(...))\<close> makes of it: \<open>Some n\<close>, or \<open>None\<close>
  for a line that raises \<open>ValueError\<close>. When the lines run out \<open>input\<close> raises
  \<open>EOFError\<close>.

  One prompt loop of \<open>get_input_time\<close>, \<open>while v > hi or v < 0\<close>: it yields the accepted
  value and the lines left.
\<close>

fun prompt_range :: "int \<Rightarrow> int \<Rightarrow> int option list \<Rightarrow> error + (int \<times> int option list)" where
  "prompt_range hi v [] = (if v > hi \<or> v < 0 then Inl EOFError else Inr (v, []))"
| "prompt_range hi v (entered # rest) =
     (if v > hi \<or> v < 0
      then prompt_range hi (case entered of Some n \<Rightarrow> n | None \<Rightarrow> v) rest
      else Inr (v, entered # rest))"

definition get_input_time :: "int option list \<Rightarrow> error + (datetime \<times> int option list)" where
  "get_input_time lines =
     (case prompt_range 23 (- 1) lines of
        Inl e \<Rightarrow> Inl e
      | Inr (hour, lines1) \<Rightarrow>
          (case prompt_range 59 (- 1) lines1 of
             Inl e \<Rightarrow> Inl e
           | Inr (minute, lines2) \<Rightarrow>
               (case prompt_range 59 (- 1) lines2 of
                  Inl e \<Rightarrow> Inl e
                | Inr (second, lines3) \<Rightarrow> Inr (time_of_day hour minute second, lines3))))"

text \<open>
  The prompt loop of option 2,
  \<open>while user_package_id < 1 or user_package_id > (num_packages + 1)\<close>.
\<close>

fun prompt_package_id ::
  "int \<Rightarrow> int \<Rightarrow> int option list \<Rightarrow> error + (int \<times> int option list)" where
  "prompt_package_id num_packages user_package_id [] =
     (if user_package_id < 1 \<or> user_package_id > num_packages + 1
      then Inl EOFError else Inr (user_package_id, []))"
| "prompt_package_id num_packages user_package_id (entered # rest) =
     (if user_package_id < 1 \<or> user_package_id > num_packages + 1
      then prompt_package_id num_packages
             (case entered of Some n \<Rightarrow> n | None \<Rightarrow> user_package_id) rest
      else Inr (user_package_id, entered # rest))"

text \<open>Option 1: the status of every key of \<open>range(1, num_packages + 1)\<close>.\<close>

fun statuses_of_keys :: "Globals \<Rightarrow> datetime \<Rightarrow> int list \<Rightarrow> error + Statuses list" where
  "statuses_of_keys g user_time [] = Inr []"
| "statuses_of_keys g user_time (key # keys) =
     (case ChainHashTable_search (my_hash_packages g) key of
        Inl e \<Rightarrow> Inl e
      | Inr None \<Rightarrow> Inl AttributeError
      | Inr (Some package) \<Rightarrow>
          (case statuses_of_keys g user_time keys of
             Inl e \<Rightarrow> Inl e
           | Inr rest \<Rightarrow> Inr (package_status user_time package # rest)))"

definition option_1 :: "Globals \<Rightarrow> int \<Rightarrow> int option list \<Rightarrow> error + Statuses list" where
  "option_1 g num_packages lines =
     (case get_input_time lines of
        Inl e \<Rightarrow> Inl e
      | Inr (user_time, lines1) \<Rightarrow> statuses_of_keys g user_time [1 ..  num_packages])"

text \<open>Option 2: the time, the package id, the lookup, the status.\<close>

definition option_2 :: "Globals \<Rightarrow> int \<Rightarrow> int option list \<Rightarrow> error + Statuses" where
  "option_2 g num_packages lines =
     (case get_input_time lines of
        Inl e \<Rightarrow> Inl e
      | Inr (user_time, lines1) \<Rightarrow>
          (case prompt_package_id num_packages 0 lines1 of
             Inl e \<Rightarrow> Inl e
           | Inr (user_package_id, lines2) \<Rightarrow>
               (case ChainHashTable_search (my_hash_packages g) user_package_id of
                  Inl e \<Rightarrow> Inl e
                | Inr None \<Rightarrow> Inl AttributeError
                | Inr (Some package) \<Rightarrow> Inr (package_status user_time package))))"

section \<open>Concrete inputs\<close>

text \<open>
  A small input for running the program: the hub and three more locations, 9, 4.5 and
  100 miles from the hub (half an hour, a quarter of an hour and more than five hours at
  18 miles per hour), and package rows built from an id, an address, a group, a required
  truck, the time of availability and the deadline.
\<close>

definition ex_locations :: "Location list" where
  "ex_locations =
     [\<lparr>l_loc_id = 0, l_name = ''Hub'', l_address = ''4001 South 700 East'',
        distances = [0, 9, 9 / 2, 100]\<rparr>,
      \<lparr>l_loc_id = 1, l_name = ''North'', l_address = ''195 W Oakland Ave'',
        distances = [9, 0, 9, 100]\<rparr>,
      \<lparr>l_loc_id = 2, l_name = ''East'', l_address = ''2530 S 500 E'',
        distances = [9 / 2, 9, 0, 100]\<rparr>,
      \<lparr>l_loc_id = 3, l_name = ''Far'', l_address = ''1 Main St'',
        distances = [100, 100, 100, 0]\<rparr>]"

definition ex_row :: "int \<Rightarrow> string \<Rightarrow> int \<Rightarrow> int \<Rightarrow> datetime \<Rightarrow> datetime \<Rightarrow> Package" where
  "ex_row i a grp req avail dl =
     \<lparr>p_id = i, p_address = a, p_city = ''Salt Lake City'', p_state = ''UT'',
      p_zip = ''84115'', p_mass = ''1'', p_group = grp, p_req_truck = req,
      p_status = ''In Depot'', time_available = avail, time_pickup = 0,
      time_delivered = 0, deadline = dl, loc_id = 0\<rparr>"

text \<open>The module state when \<open>route_packages\<close> is called on given rows.\<close>

definition ex_globals :: "Package list \<Rightarrow> Globals" where
  "ex_globals rows = snd (final (startup ex_locations rows))"

text \<open>The package stored under a key, for reading the result of a run.\<close>

definition stored :: "Globals \<Rightarrow> int \<Rightarrow> Package option" where
  "stored g key =
     (case ChainHashTable_search (my_hash_packages g) key of
        Inl e \<Rightarrow> None
      | Inr found \<Rightarrow> found)"

text \<open>
  Two packages of group 7, both available at 08:00; the second must go on truck 2.
\<close>

definition ex_group_affinity :: "Package list" where
  "ex_group_affinity =
     [ex_row 1 ''195 W Oakland Ave'' 7 0 (time_of_day 8 0 0) (time_of_day 23 59 59),
      ex_row 2 ''2530 S 500 E'' 7 2 (time_of_day 8 0 0) (time_of_day 23 59 59)]"

text \<open>One package without constraints, available at 08:00, for the location 9 miles away.\<close>

definition ex_single :: "Package list" where
  "ex_single =
     [ex_row 1 ''195 W Oakland Ave'' 0 0 (time_of_day 8 0 0) (time_of_day 23 59 59)]"

text \<open>One package for the location 100 miles away.\<close>

definition ex_far :: "Package list" where
  "ex_far = [ex_row 1 ''1 Main St'' 0 0 (time_of_day 8 0 0) (time_of_day 23 59 59)]"

text \<open>
  Two packages of group 7; the second reaches the depot at 09:05 only.
\<close>

definition ex_group_late :: "Package list" where
  "ex_group_late =
     [ex_row 1 ''195 W Oakland Ave'' 7 0 (time_of_day 8 0 0) (time_of_day 23 59 59),
      ex_row 2 ''2530 S 500 E'' 7 0 (time_of_day 9 5 0) (time_of_day 23 59 59)]"

section \<open>Properties of the hash table\<close>

lemma nat_mod_less: "0 < n \<Longrightarrow> nat (h mod int n) < n"
  by (simp add: nat_less_iff)

lemma bucket_of_in_range:
  "bucket_of self key = Inr b \<Longrightarrow> b < length (table self)"
  by (auto simp: bucket_of_def nat_mod_less split: if_splits)

lemma bucket_of_ok:
  "table self \<noteq> [] \<Longrightarrow> \<exists>b. bucket_of self key = Inr b"
  by (simp add: bucket_of_def)

lemma bucket_of_length_cong:
  "length (table self') = length (table self) \<Longrightarrow> bucket_of self' key = bucket_of self key"
  by (simp add: bucket_of_def)

lemma bucket_search_insert_same:
  "bucket_search (bucket_insert kvs key item) key = Some item"
  by (induction kvs) auto

lemma bucket_search_insert_other:
  "key' \<noteq> key \<Longrightarrow> bucket_search (bucket_insert kvs key item) key' = bucket_search kvs key'"
  by (induction kvs) auto

lemma bucket_insert_twice:
  "bucket_insert (bucket_insert kvs key item) key item' = bucket_insert kvs key item'"
  by (induction kvs) auto

lemma insert_length:
  "ChainHashTable_insert self key item = Inr self' \<Longrightarrow>
     length (table self') = length (table self)"
  by (auto simp: ChainHashTable_insert_def split: sum.splits)

lemma insert_ok:
  "table self \<noteq> [] \<Longrightarrow> \<exists>self'. ChainHashTable_insert self key item = Inr self'"
  using bucket_of_ok [of self key] by (auto simp: ChainHashTable_insert_def)

lemma search_insert_same:
  assumes "ChainHashTable_insert self key item = Inr self'"
  shows "ChainHashTable_search self' key = Inr (Some item)"
proof -
  from assms obtain b where b: "bucket_of self key = Inr b"
    and self': "self' = self\<lparr>table := (table self)[b := bucket_insert (table self ! b) key item]\<rparr>"
    by (auto simp: ChainHashTable_insert_def split: sum.splits)
  from b have lt: "b < length (table self)" by (rule bucket_of_in_range)
  from self' have "bucket_of self' key = bucket_of self key"
    by (simp add: bucket_of_def)
  with b self' lt show ?thesis
    by (simp add: ChainHashTable_search_def bucket_search_insert_same)
qed

lemma search_insert_other:
  assumes "ChainHashTable_insert self key item = Inr self'" and "key' \<noteq> key"
  shows "ChainHashTable_search self' key' = ChainHashTable_search self key'"
proof -
  from assms obtain b where b: "bucket_of self key = Inr b"
    and self': "self' = self\<lparr>table := (table self)[b := bucket_insert (table self ! b) key item]\<rparr>"
    by (auto simp: ChainHashTable_insert_def split: sum.splits)
  from b have lt: "b < length (table self)" by (rule bucket_of_in_range)
  from self' have eq: "bucket_of self' key' = bucket_of self key'"
    by (simp add: bucket_of_def)
  show ?thesis
  proof (cases "bucket_of self key'")
    case (Inl e)
    with eq show ?thesis by (simp add: ChainHashTable_search_def)
  next
    case (Inr b')
    with eq self' lt assms(2) show ?thesis
      by (cases "b' = b")
         (simp_all add: ChainHashTable_search_def bucket_search_insert_other)
  qed
qed

lemma insert_twice:
  assumes "ChainHashTable_insert self key item = Inr self'"
  shows "ChainHashTable_insert self' key item' = ChainHashTable_insert self key item'"
proof -
  from assms obtain b where b: "bucket_of self key = Inr b"
    and self': "self' = self\<lparr>table := (table self)[b := bucket_insert (table self ! b) key item]\<rparr>"
    by (auto simp: ChainHashTable_insert_def split: sum.splits)
  from b have lt: "b < length (table self)" by (rule bucket_of_in_range)
  from self' have "bucket_of self' key = bucket_of self key"
    by (simp add: bucket_of_def)
  with b self' lt show ?thesis
    by (simp add: ChainHashTable_insert_def bucket_insert_twice)
qed

lemma search_init:
  "0 < initial_capacity \<Longrightarrow>
     ChainHashTable_search (ChainHashTable_init initial_capacity) key = Inr None"
proof -
  assume pos: "0 < initial_capacity"
  let ?n = "nat initial_capacity"
  have "nat (py_hash key mod int ?n) < ?n"
    using pos by (intro nat_mod_less) simp
  with pos show ?thesis
    by (simp add: ChainHashTable_search_def ChainHashTable_init_def bucket_of_def)
qed

lemma insert_all_search_absent:
  assumes "insert_all self kvs = Inr self'" and "key \<notin> fst ` set kvs"
  shows "ChainHashTable_search self' key = ChainHashTable_search self key"
  using assms
proof (induction kvs arbitrary: self)
  case Nil
  then show ?case by simp
next
  case (Cons kv kvs)
  from Cons.prems(1) obtain s1 where
    s1: "ChainHashTable_insert self (fst kv) (snd kv) = Inr s1" and rest: "insert_all s1 kvs = Inr self'"
    by (auto split: sum.splits)
  from Cons.prems(2) have ne: "key \<noteq> fst kv" and notin: "key \<notin> fst ` set kvs"
    by auto
  from rest notin have "ChainHashTable_search self' key = ChainHashTable_search s1 key"
    by (rule Cons.IH)
  also from s1 ne have "\<dots> = ChainHashTable_search self key"
    by (rule search_insert_other)
  finally show ?case .
qed

lemma insert_all_ok:
  "table self \<noteq> [] \<Longrightarrow> \<exists>self'. insert_all self kvs = Inr self'"
proof (induction kvs arbitrary: self)
  case Nil
  then show ?case by simp
next
  case (Cons kv kvs)
  from Cons.prems obtain s1 where s1: "ChainHashTable_insert self (fst kv) (snd kv) = Inr s1"
    using insert_ok [of self "fst kv" "snd kv"] by auto
  then have "length (table s1) = length (table self)" by (rule insert_length)
  with Cons.prems have "table s1 \<noteq> []" by auto
  then obtain s2 where "insert_all s1 kvs = Inr s2" using Cons.IH by blast
  with s1 show ?case by simp
qed

text \<open>
  C9. On a table with at least one bucket \<open>insert\<close> returns; whenever \<open>insert(k, v)\<close>
  returns, \<open>search(k)\<close> on the table it leaves yields \<open>v\<close>, and a later \<open>insert\<close> for the
  same key leaves the table an \<open>insert\<close> of the later record alone would have left, so
  the earlier record is replaced; and in a table built from a fresh one (of positive
  capacity) by inserts, none of them for \<open>k\<close>, \<open>search(k)\<close> returns \<open>None\<close>.
\<close>

theorem chain_hash_table_contract:
  "(table self \<noteq> [] \<longrightarrow> (\<exists>self'. ChainHashTable_insert self k v = Inr self'))
   \<and> (\<forall>self'. ChainHashTable_insert self k v = Inr self' \<longrightarrow>
         ChainHashTable_search self' k = Inr (Some v)
         \<and> (\<forall>v2. \<exists>self''. ChainHashTable_insert self' k v2 = Inr self''
                \<and> ChainHashTable_insert self k v2 = Inr self''
                \<and> ChainHashTable_search self'' k = Inr (Some v2)))
   \<and> (0 < capacity \<and> k \<notin> fst ` set (kvs :: (int \<times> 'v) list) \<longrightarrow>
         (\<exists>built. insert_all (ChainHashTable_init capacity) kvs = Inr built
            \<and> ChainHashTable_search built k = Inr None))"
proof (intro conjI allI impI)
  assume "table self \<noteq> []"
  then show "\<exists>self'. ChainHashTable_insert self k v = Inr self'" by (rule insert_ok)
next
  fix self'
  assume "ChainHashTable_insert self k v = Inr self'"
  then show "ChainHashTable_search self' k = Inr (Some v)" by (rule search_insert_same)
next
  fix self' v2
  assume ins: "ChainHashTable_insert self k v = Inr self'"
  then have len: "length (table self') = length (table self)" by (rule insert_length)
  from ins have "table self \<noteq> []"
    by (auto simp: ChainHashTable_insert_def bucket_of_def split: sum.splits if_splits)
  with len have "table self' \<noteq> []" by auto
  then obtain s2 where s2: "ChainHashTable_insert self' k v2 = Inr s2"
    using insert_ok [of self' k v2] by auto
  moreover from ins have "ChainHashTable_insert self' k v2 = ChainHashTable_insert self k v2"
    by (rule insert_twice)
  moreover from s2 have "ChainHashTable_search s2 k = Inr (Some v2)"
    by (rule search_insert_same)
  ultimately show "\<exists>self''. ChainHashTable_insert self' k v2 = Inr self''
      \<and> ChainHashTable_insert self k v2 = Inr self''
      \<and> ChainHashTable_search self'' k = Inr (Some v2)"
    by auto
next
  assume a: "0 < capacity \<and> k \<notin> fst ` set kvs"
  then have "table (ChainHashTable_init capacity :: 'v ChainHashTable) \<noteq> []"
    by (auto simp: ChainHashTable_init_def)
  then obtain built where b: "insert_all (ChainHashTable_init capacity) kvs = (Inr built :: error + 'v ChainHashTable)"
    using insert_all_ok by blast
  with a have "ChainHashTable_search built k = ChainHashTable_search (ChainHashTable_init capacity) k"
    by (intro insert_all_search_absent) auto
  with a b show "\<exists>built. insert_all (ChainHashTable_init capacity) kvs = Inr built
      \<and> ChainHashTable_search built k = Inr None"
    by (simp add: search_init)
qed

theorem chain_hash_table_contract_witness:
  "\<exists>s1 s2 built.
     ChainHashTable_insert (ChainHashTable_init 10) 13 (1::nat) = Inr s1
     \<and> ChainHashTable_search s1 13 = Inr (Some 1)
     \<and> ChainHashTable_insert s1 13 2 = Inr s2
     \<and> ChainHashTable_search s2 13 = Inr (Some 2)
     \<and> insert_all (ChainHashTable_init 10) [(3, 7::nat)] = Inr built
     \<and> ChainHashTable_search built 13 = Inr None"
proof -
  note c = chain_hash_table_contract [of "ChainHashTable_init 10" 13 "1::nat" 10 "[(3, 7)]"]
  have ne: "table (ChainHashTable_init 10 :: nat ChainHashTable) \<noteq> []"
    by (simp add: ChainHashTable_init_def)
  with c obtain s1 where s1: "ChainHashTable_insert (ChainHashTable_init 10) 13 (1::nat) = Inr s1"
    by auto
  with c have a: "ChainHashTable_search s1 13 = Inr (Some 1)"
    and "\<exists>s2. ChainHashTable_insert s1 13 2 = Inr s2 \<and> ChainHashTable_search s2 13 = Inr (Some 2)"
    by auto
  then obtain s2 where s2: "ChainHashTable_insert s1 13 2 = Inr s2"
    "ChainHashTable_search s2 13 = Inr (Some 2)" by auto
  from c obtain built where b: "insert_all (ChainHashTable_init 10) [(3, 7::nat)] = Inr built"
    "ChainHashTable_search built 13 = Inr None" by auto
  show ?thesis
    by (rule exI [of _ s1], rule exI [of _ s2], rule exI [of _ built]) (intro conjI s1 a s2 b)
qed

section \<open>The claims settled by running the program\<close>

text \<open>
  C1. A package with a required truck is loaded by that truck only. The group scan of
  \<open>load_truck\<close> does not test it: with two packages of group 7, the second required on
  truck 2, the first call of \<open>load_truck\<close> (on truck 1, two steps into the run) puts
  both into the manifest of truck 1.
\<close>

theorem group_scan_loads_package_of_other_truck:
  "(let c = run 2 (route_packages_entry truck_list (ex_globals ex_group_affinity))
    in control c = AtDrain 0
       \<and> truck_id (trucks c ! 0) = 1
       \<and> packages (trucks c ! 0) = [1, 2]
       \<and> map_option p_req_truck (stored (globals c) 2) = Some 2)"
  by code_simp

text \<open>
  C2. \<open>deliver_package\<close> stamps the package with the truck's clock and only then drives
  the leg: truck 1 at the hub at 08:00 with package 1 aboard, bound for the location 9
  miles (1800 seconds) away, ends the call at 08:30 with 9 miles on the odometer, at the
  destination and with an empty manifest, and the package's delivered time is 08:00.
\<close>

theorem deliver_package_stamps_clock_before_leg:
  "(let g = ex_globals ex_single;
        self = truck_1\<lparr>packages := [1]\<rparr>
    in truck_time self = time_of_day 8 0 0
       \<and> lookup_distance g (location_id self) 1 = Inr 9
       \<and> timedelta_seconds (9 / rate self * 3600) = 1800 * 1000000
       \<and> (case deliver_package self 1 g of
             Return (self', g') \<Rightarrow>
               truck_time self' = time_of_day 8 30 0
               \<and> distance_traveled self' = 9 \<and> location_id self' = 1 \<and> packages self' = []
               \<and> map_option time_delivered (stored g' 1) = Some (time_of_day 8 0 0)
           | Raise e s \<Rightarrow> False))"
  by code_simp

text \<open>
  C6. \<open>find_shortest_distance\<close> starts its minimum at 100, so a manifest whose packages
  are all 100 miles or more away yields the sentinel \<open>-1\<close>: with one package for the
  location 100 miles from the hub aboard truck 1 at the hub, the result is \<open>-1\<close>, and
  the next step of the run (\<open>deliver_package(-1)\<close>) raises \<open>AttributeError\<close>.
\<close>

theorem find_shortest_distance_sentinel_at_100_miles:
  "(let c = run 2 (route_packages_entry truck_list (ex_globals ex_far))
    in control c = AtDrain 0
       \<and> packages (trucks c ! 0) = [1]
       \<and> map_option loc_id (stored (globals c) 1) = Some 3
       \<and> lookup_distance (globals c) (location_id (trucks c ! 0)) 3 = Inr 100
       \<and> find_shortest_distance (trucks c ! 0) (globals c) = Inr (- 1)
       \<and> control (run 1 c) = Aborted AttributeError)"
  by code_simp

text \<open>
  C8. The prompt for the package id lets \<open>num_packages + 1\<close> through: with two packages
  loaded, the entries 0, a non-integer and 4 are asked again, 3 is accepted, no package
  is stored under 3, and option 2 ends in \<open>AttributeError\<close>.
\<close>

theorem prompt_accepts_num_packages_plus_one:
  "(case startup ex_locations ex_group_affinity of
      Return (num_packages, g) \<Rightarrow> num_packages = 2
    | Raise e s \<Rightarrow> False)
   \<and> prompt_package_id 2 0 [Some 0, None, Some 4, Some 3] = Inr (3, [])
   \<and> stored (ex_globals ex_group_affinity) 3 = None
   \<and> option_2 (ex_globals ex_group_affinity) 2 [Some 8, Some 30, Some 0, Some 3]
       = Inl AttributeError"
  by code_simp

section \<open>The status of a package\<close>

lemma option_2_status:
  assumes "get_input_time lines = Inr (user_time, lines1)"
    and "prompt_package_id num_packages 0 lines1 = Inr (key, lines2)"
    and "ChainHashTable_search (my_hash_packages g) key = Inr (Some package)"
  shows "option_2 g num_packages lines = Inr (package_status user_time package)"
  using assms by (simp add: option_2_def)

text \<open>
  C7 as stated fails: the status is a chain of comparisons, so a later timestamp is
  only looked at when the query time has passed the earlier ones. In the run on two
  packages of group 7, the second available at 09:05 only, truck 1 loads and delivers
  both from 08:00 on; at 08:30 the second package is past its pickup and its delivered
  time, and its status is Unavailable.
\<close>

theorem status_ignores_later_timestamps_counterexample:
  "(case route_packages 9 truck_list (ex_globals ex_group_late) of
      Some (Return (ts, g)) \<Rightarrow>
        (case stored g 2 of
           Some p \<Rightarrow>
             time_pickup p \<le> time_of_day 8 30 0
             \<and> time_delivered p \<le> time_of_day 8 30 0
             \<and> package_status (time_of_day 8 30 0) p = UNAVAILABLE
             \<and> option_2 g 2 [Some 8, Some 30, Some 0, Some 2] = Inr UNAVAILABLE
         | None \<Rightarrow> False)
    | _ \<Rightarrow> False)"
  by code_simp

text \<open>
  C7, amended: for every package whose timestamps are in order (available \<open>\<le>\<close> pickup
  \<open>\<le>\<close> delivered) and every query time, the status is Unavailable iff the query time
  is before the available time, In Depot iff it is from the available time on and before
  the pickup, En Route iff it is from the pickup on and before the delivery, and
  Delivered iff it is the delivered time or later.
\<close>

theorem package_status_by_timestamps:
  assumes "time_available p \<le> time_pickup p" and "time_pickup p \<le> time_delivered p"
  shows "(package_status q p = UNAVAILABLE \<longleftrightarrow> q < time_available p)
       \<and> (package_status q p = DEPOT \<longleftrightarrow> time_available p \<le> q \<and> q < time_pickup p)
       \<and> (package_status q p = EN_ROUTE \<longleftrightarrow> time_pickup p \<le> q \<and> q < time_delivered p)
       \<and> (package_status q p = DELIVERED \<longleftrightarrow> time_delivered p \<le> q)"
  using assms by (auto simp: package_status_def)

text \<open>
  The scenario of the claim: available and picked up at 08:00, delivered at 09:15; En
  Route at 08:30, Unavailable at 07:59, Delivered at 09:15 and at 17:00.
\<close>

theorem package_status_by_timestamps_witness:
  "(let p = (ex_row 1 ''195 W Oakland Ave'' 0 0 (time_of_day 8 0 0) (time_of_day 23 59 59))
              \<lparr>time_pickup := time_of_day 8 0 0, time_delivered := time_of_day 9 15 0\<rparr>
    in time_available p \<le> time_pickup p \<and> time_pickup p \<le> time_delivered p
       \<and> package_status (time_of_day 8 30 0) p = EN_ROUTE
       \<and> package_status (time_of_day 7 59 0) p = UNAVAILABLE
       \<and> package_status (time_of_day 9 15 0) p = DELIVERED
       \<and> package_status (time_of_day 17 0 0) p = DELIVERED)"
proof -
  define p where "p = (ex_row 1 ''195 W Oakland Ave'' 0 0 (time_of_day 8 0 0) (time_of_day 23 59 59))
              \<lparr>time_pickup := time_of_day 8 0 0, time_delivered := time_of_day 9 15 0\<rparr>"
  have a: "time_available p \<le> time_pickup p" and b: "time_pickup p \<le> time_delivered p"
    by (simp_all add: p_def ex_row_def time_of_day_def)
  have ts: "time_available p = time_of_day 8 0 0" "time_pickup p = time_of_day 8 0 0"
    "time_delivered p = time_of_day 9 15 0"
    by (simp_all add: p_def ex_row_def)
  have "package_status (time_of_day 8 30 0) p = EN_ROUTE"
    using package_status_by_timestamps [OF a b, of "time_of_day 8 30 0"]
    by (simp add: ts time_of_day_def)
  moreover have "package_status (time_of_day 7 59 0) p = UNAVAILABLE"
    using package_status_by_timestamps [OF a b, of "time_of_day 7 59 0"]
    by (simp add: ts time_of_day_def)
  moreover have "package_status (time_of_day 9 15 0) p = DELIVERED"
    using package_status_by_timestamps [OF a b, of "time_of_day 9 15 0"]
    by (simp add: ts time_of_day_def)
  moreover have "package_status (time_of_day 17 0 0) p = DELIVERED"
    using package_status_by_timestamps [OF a b, of "time_of_day 17 0 0"]
    by (simp add: ts time_of_day_def)
  ultimately show ?thesis using a b unfolding p_def Let_def by blast
qed

section \<open>The directory as a map\<close>

lemma stored_Some_search:
  "stored g key = Some package \<longleftrightarrow>
     ChainHashTable_search (my_hash_packages g) key = Inr (Some package)"
  by (auto simp: stored_def split: sum.splits)

lemma stored_Some_table: "stored g key = Some package \<Longrightarrow> table (my_hash_packages g) \<noteq> []"
  by (auto simp: stored_def ChainHashTable_search_def bucket_of_def split: sum.splits if_splits)

lemma search_cases:
  obtains (raises) e where "ChainHashTable_search (my_hash_packages g) key = Inl e"
      and "stored g key = None"
  | (absent) "ChainHashTable_search (my_hash_packages g) key = Inr None"
      and "stored g key = None"
  | (found) package where "ChainHashTable_search (my_hash_packages g) key = Inr (Some package)"
      and "stored g key = Some package"
proof (cases "ChainHashTable_search (my_hash_packages g) key")
  case (Inl e)
  then show ?thesis using raises by (simp add: stored_def)
next
  case (Inr found')
  then show ?thesis using absent found by (cases found') (simp_all add: stored_def)
qed

text \<open>Writing a changed object back under a key that is stored.\<close>

definition assign :: "Globals \<Rightarrow> int \<Rightarrow> Package \<Rightarrow> Globals" where
  "assign g key package =
     g\<lparr>my_hash_packages := update_found (my_hash_packages g) key package\<rparr>"

lemma assign_fields [simp]:
  "locations (assign g key package) = locations g"
  "priority_packages (assign g key package) = priority_packages g"
  "non_priority_packages (assign g key package) = non_priority_packages g"
  "group_count_dictionary (assign g key package) = group_count_dictionary g"
  by (simp_all add: assign_def)

lemma stored_assign:
  assumes "stored g key = Some old"
  shows "stored (assign g key package) k = (if k = key then Some package else stored g k)"
proof -
  from assms have "table (my_hash_packages g) \<noteq> []" by (rule stored_Some_table)
  then obtain t' where t': "ChainHashTable_insert (my_hash_packages g) key package = Inr t'"
    using insert_ok [of "my_hash_packages g" key package] by auto
  then have upd: "update_found (my_hash_packages g) key package = t'"
    by (simp add: update_found_def)
  show ?thesis
  proof (cases "k = key")
    case True
    with t' upd show ?thesis
      by (simp add: stored_def assign_def search_insert_same)
  next
    case False
    with t' have "ChainHashTable_search t' k = ChainHashTable_search (my_hash_packages g) k"
      by (intro search_insert_other) 
    with False upd show ?thesis by (simp add: stored_def assign_def)
  qed
qed

section \<open>What loading does\<close>

text \<open>
  The pickup stamp that \<open>load_package\<close> writes, and the state after a truck has loaded
  a list of ids one after the other.
\<close>

definition stamp_pickup :: "datetime \<Rightarrow> int \<Rightarrow> Globals \<Rightarrow> Globals" where
  "stamp_pickup T key g =
     (case stored g key of
        None \<Rightarrow> g
      | Some package \<Rightarrow> assign g key (package\<lparr>time_pickup := T\<rparr>))"

definition loaded :: "Truck \<Rightarrow> int list \<Rightarrow> Globals \<Rightarrow> Truck \<times> Globals" where
  "loaded self added g =
     (self\<lparr>packages := packages self @ added\<rparr>, fold (stamp_pickup (truck_time self)) added g)"

fun returned :: "'s outcome \<Rightarrow> bool" where
  "returned (Return s) = True"
| "returned (Raise e s) = False"

lemma stamp_pickup_fields [simp]:
  "locations (stamp_pickup T key g) = locations g"
  "priority_packages (stamp_pickup T key g) = priority_packages g"
  "non_priority_packages (stamp_pickup T key g) = non_priority_packages g"
  "group_count_dictionary (stamp_pickup T key g) = group_count_dictionary g"
  by (simp_all add: stamp_pickup_def split: option.splits)

lemma stored_stamp_pickup:
  "stored (stamp_pickup T key g) k =
     (if k = key then map_option (\<lambda>p. p\<lparr>time_pickup := T\<rparr>) (stored g k) else stored g k)"
  by (simp add: stamp_pickup_def stored_assign split: option.splits)

lemma fold_stamp_fields [simp]:
  "locations (fold (stamp_pickup T) added g) = locations g"
  "priority_packages (fold (stamp_pickup T) added g) = priority_packages g"
  "non_priority_packages (fold (stamp_pickup T) added g) = non_priority_packages g"
  "group_count_dictionary (fold (stamp_pickup T) added g) = group_count_dictionary g"
  by (induction added arbitrary: g) simp_all

lemma stored_fold_stamp:
  "stored (fold (stamp_pickup T) added g) k =
     (if k \<in> set added then map_option (\<lambda>p. p\<lparr>time_pickup := T\<rparr>) (stored g k)
      else stored g k)"
proof (induction added arbitrary: g)
  case Nil
  show ?case by simp
next
  case (Cons a added)
  show ?case
    by (cases "stored g k") (auto simp: Cons.IH stored_stamp_pickup)
qed

lemma loaded_Nil [simp]: "loaded self [] g = (self, g)"
  by (simp add: loaded_def)

lemma loaded_loaded:
  "loaded self1 b g1 = loaded self (a @ b) g" if "loaded self a g = (self1, g1)"
  using that by (auto simp: loaded_def)

lemma loaded_truck [simp]:
  "truck_id (fst (loaded self added g)) = truck_id self"
  "truck_time (fst (loaded self added g)) = truck_time self"
  "distance_traveled (fst (loaded self added g)) = distance_traveled self"
  "location_id (fst (loaded self added g)) = location_id self"
  "rate (fst (loaded self added g)) = rate self"
  "packages (fst (loaded self added g)) = packages self @ added"
  by (simp_all add: loaded_def)

lemma loaded_globals [simp]:
  "locations (snd (loaded self added g)) = locations g"
  "priority_packages (snd (loaded self added g)) = priority_packages g"
  "non_priority_packages (snd (loaded self added g)) = non_priority_packages g"
  "group_count_dictionary (snd (loaded self added g)) = group_count_dictionary g"
  by (simp_all add: loaded_def)

lemma stored_loaded:
  "stored (snd (loaded self added g)) k =
     (if k \<in> set added then map_option (\<lambda>p. p\<lparr>time_pickup := truck_time self\<rparr>) (stored g k)
      else stored g k)"
  by (simp add: loaded_def stored_fold_stamp)

lemma stored_loaded_None [simp]:
  "stored (snd (loaded self added g)) k = None \<longleftrightarrow> stored g k = None"
  by (simp add: stored_loaded)

text \<open>The group of a stored package, and the ids of a list that belong to a group.\<close>

definition group_of :: "Globals \<Rightarrow> int \<Rightarrow> int option" where
  "group_of g k = map_option p_group (stored g k)"

definition members :: "Globals \<Rightarrow> int \<Rightarrow> int list \<Rightarrow> int list" where
  "members g group_id ids = filter (\<lambda>k. group_of g k = Some group_id) ids"

lemma members_simps [simp]:
  "members g group_id [] = []"
  "members g group_id (k # ids) =
     (if group_of g k = Some group_id then k # members g group_id ids
      else members g group_id ids)"
  by (simp_all add: members_def)

lemma group_of_loaded [simp]: "group_of (snd (loaded self added g)) k = group_of g k"
  by (simp add: group_of_def stored_loaded option.map_comp o_def)

lemma members_loaded [simp]:
  "members (snd (loaded self added g)) group_id ids = members g group_id ids"
  by (simp add: members_def)

subsection \<open>load\_package\<close>

lemma load_package_found:
  assumes "stored g p = Some package"
  shows "load_package self p g = Return (loaded self [p] g)"
proof -
  from assms have "ChainHashTable_search (my_hash_packages g) p = Inr (Some package)"
    by (simp add: stored_Some_search)
  with assms show ?thesis
    by (simp add: load_package_def loaded_def stamp_pickup_def assign_def)
qed

lemma load_package_missing:
  "stored g p = None \<Longrightarrow> \<exists>e. load_package self p g = Raise e (self, g)"
  by (cases rule: search_cases [of g p]) (simp_all add: load_package_def)

subsection \<open>The group scan\<close>

lemma load_group_effect:
  "\<exists>added rest.
     final (load_group ids group_id self g) = loaded self added g
     \<and> members g group_id ids = added @ rest
     \<and> (returned (load_group ids group_id self g) \<longrightarrow> rest = [])
     \<and> (returned (load_group ids group_id self g) \<or> (\<exists>k \<in> set ids. stored g k = None))"
proof (induction ids arbitrary: self g)
  case Nil
  show ?case by simp
next
  case (Cons k ids)
  show ?case
  proof (cases rule: search_cases [of g k])
    case (raises e)
    then show ?thesis
      by (intro exI [of _ "[]"] exI [of _ "members g group_id (k # ids)"]) simp
  next
    case absent
    then show ?thesis
      by (intro exI [of _ "[]"] exI [of _ "members g group_id (k # ids)"]) simp
  next
    case (found package)
    show ?thesis
    proof (cases "p_group package = group_id")
      case False
      with found have "load_group (k # ids) group_id self g = load_group ids group_id self g"
        and "members g group_id (k # ids) = members g group_id ids"
        by (simp_all add: group_of_def)
      with Cons.IH [of self g] show ?thesis by auto
    next
      case True
      obtain self1 g1 where l1: "loaded self [k] g = (self1, g1)"
        by (cases "loaded self [k] g")
      from found have lp: "load_package self k g = Return (self1, g1)"
        by (simp add: load_package_found l1)
      from Cons.IH [of self1 g1] obtain added rest where
        f: "final (load_group ids group_id self1 g1) = loaded self1 added g1"
        and m: "members g1 group_id ids = added @ rest"
        and r: "returned (load_group ids group_id self1 g1) \<longrightarrow> rest = []"
        and miss1: "returned (load_group ids group_id self1 g1)
          \<or> (\<exists>j \<in> set ids. stored g1 j = None)"
        by blast
      from l1 have g1: "g1 = snd (loaded self [k] g)" by simp
      have eq: "load_group (k # ids) group_id self g = load_group ids group_id self1 g1"
        using found True lp by simp
      have "final (load_group (k # ids) group_id self g) = loaded self ([k] @ added) g"
        using f loaded_loaded [OF l1] eq by simp
      moreover have "members g group_id (k # ids) = ([k] @ added) @ rest"
        using m found True by (simp add: group_of_def g1)
      moreover have "returned (load_group (k # ids) group_id self g)
          \<or> (\<exists>j \<in> set (k # ids). stored g j = None)"
        using miss1 eq by (auto simp: g1)
      ultimately show ?thesis using r eq by auto
    qed
  qed
qed

lemma load_group_outcome:
  obtains (returns) "load_group ids group_id self g = Return (loaded self (members g group_id ids) g)"
  | (raises) e added rest where "load_group ids group_id self g = Raise e (loaded self added g)"
      and "members g group_id ids = added @ rest"
      and "\<exists>k \<in> set ids. stored g k = None"
proof -
  from load_group_effect [of ids group_id self g] obtain added rest where
    f: "final (load_group ids group_id self g) = loaded self added g"
    and m: "members g group_id ids = added @ rest"
    and r: "returned (load_group ids group_id self g) \<longrightarrow> rest = []"
    and miss: "returned (load_group ids group_id self g) \<or> (\<exists>k \<in> set ids. stored g k = None)"
    by blast
  show thesis
  proof (cases "load_group ids group_id self g")
    case (Return s)
    with f m r show ?thesis using returns by simp
  next
    case (Raise e s)
    with f m miss show ?thesis using raises [of e added rest] by simp
  qed
qed

subsection \<open>The loop over the priority list\<close>

definition eligible :: "Truck \<Rightarrow> Package \<Rightarrow> bool" where
  "eligible self package \<longleftrightarrow>
     (p_req_truck package = truck_id self \<or> p_req_truck package = 0)
     \<and> time_available package \<le> truck_time self"

text \<open>The ways one iteration of the loop can go.\<close>

lemma load_priority_Cons_cases:
  obtains (break) "length (packages self) = 16"
      and "\<And>rest. load_priority L (p # rest) self g = Return (self, g)"
  | (aboard) "length (packages self) \<noteq> 16" and "p \<in> set (packages self)"
      and "\<And>rest. load_priority L (p # rest) self g = load_priority L rest self g"
  | (missing) e where "length (packages self) \<noteq> 16" and "p \<notin> set (packages self)"
      and "stored g p = None"
      and "\<And>rest. load_priority L (p # rest) self g = Raise e (self, g)"
  | (no_count) package where "length (packages self) \<noteq> 16" and "p \<notin> set (packages self)"
      and "stored g p = Some package" and "eligible self package" and "p_group package \<noteq> 0"
      and "group_count_dictionary g (p_group package) = None"
      and "\<And>rest. load_priority L (p # rest) self g = Raise KeyError (self, g)"
  | (ineligible) package where "length (packages self) \<noteq> 16" and "p \<notin> set (packages self)"
      and "stored g p = Some package" and "\<not> eligible self package"
      and "\<And>rest. load_priority L (p # rest) self g = load_priority L rest self g"
  | (single) package where "length (packages self) \<noteq> 16" and "p \<notin> set (packages self)"
      and "stored g p = Some package" and "eligible self package" and "p_group package = 0"
      and "\<And>rest. load_priority L (p # rest) self g =
             load_priority L rest (fst (loaded self [p] g)) (snd (loaded self [p] g))"
  | (too_big) package c where "length (packages self) \<noteq> 16" and "p \<notin> set (packages self)"
      and "stored g p = Some package" and "eligible self package" and "p_group package \<noteq> 0"
      and "group_count_dictionary g (p_group package) = Some c"
      and "\<not> int (length (packages self)) + c \<le> 16"
      and "\<And>rest. load_priority L (p # rest) self g = load_priority L rest self g"
  | (admit) package c where "length (packages self) \<noteq> 16" and "p \<notin> set (packages self)"
      and "stored g p = Some package" and "eligible self package" and "p_group package \<noteq> 0"
      and "group_count_dictionary g (p_group package) = Some c"
      and "int (length (packages self)) + c \<le> 16"
      and "\<And>rest. load_priority L (p # rest) self g =
             load_priority L rest
               (fst (loaded self (members g (p_group package) L) g))
               (snd (loaded self (members g (p_group package) L) g))"
  | (admit_raises) package c e added rest' where
      "length (packages self) \<noteq> 16" and "p \<notin> set (packages self)"
      and "stored g p = Some package" and "eligible self package" and "p_group package \<noteq> 0"
      and "group_count_dictionary g (p_group package) = Some c"
      and "int (length (packages self)) + c \<le> 16"
      and "members g (p_group package) L = added @ rest'"
      and "\<exists>k \<in> set L. stored g k = None"
      and "\<And>rest. load_priority L (p # rest) self g = Raise e (loaded self added g)"
proof (cases "length (packages self) = 16")
  case True
  then show ?thesis using break by simp
next
  case len: False
  show ?thesis
  proof (cases "p \<in> set (packages self)")
    case True
    with len show ?thesis using aboard by simp
  next
    case notin: False
    show ?thesis
    proof (cases rule: search_cases [of g p])
      case (raises e)
      with len notin show ?thesis using missing [of e] by simp
    next
      case absent
      with len notin show ?thesis using missing [of AttributeError] by simp
    next
      case (found package)
      show ?thesis
      proof (cases "eligible self package")
        case False
        with len notin found show ?thesis using ineligible [of package]
          by (auto simp: eligible_def)
      next
        case el: True
        show ?thesis
        proof (cases "p_group package = 0")
          case True
          from found have "load_package self p g = Return (loaded self [p] g)"
            by (simp add: load_package_found)
          with len notin found el True show ?thesis using single [of package]
            by (auto simp: eligible_def split: prod.splits)
        next
          case grp: False
          show ?thesis
          proof (cases "group_count_dictionary g (p_group package)")
            case None
            with len notin found el grp show ?thesis using no_count [of package]
              by (auto simp: eligible_def)
          next
            case (Some c)
            show ?thesis
            proof (cases "int (length (packages self)) + c \<le> 16")
              case False
              with len notin found el grp Some show ?thesis using too_big [of package c]
                by (auto simp: eligible_def)
            next
              case fits: True
              show ?thesis
              proof (cases rule: load_group_outcome [of L "p_group package" self g])
                case returns
                with len notin found el grp Some fits show ?thesis using admit [of package c]
                  by (auto simp: eligible_def split: prod.splits)
              next
                case (raises e added rest')
                with len notin found el grp Some fits show ?thesis
                  using admit_raises [of package c added rest' e]
                  by (auto simp: eligible_def split: prod.splits)
              qed
            qed
          qed
        qed
      qed
    qed
  qed
qed

text \<open>
  A candidate of a loading pass: a stored package that passes the tests on the
  required truck and the time of availability, with its group.
\<close>

definition candidate :: "Truck \<Rightarrow> Globals \<Rightarrow> int \<Rightarrow> int \<Rightarrow> bool" where
  "candidate self g p group_id \<longleftrightarrow>
     (\<exists>package. stored g p = Some package \<and> eligible self package
        \<and> p_group package = group_id)"

lemma candidate_loaded [simp]:
  "candidate (fst (loaded self added g)) (snd (loaded self added g)) p group_id
     = candidate self g p group_id"
  by (auto simp: candidate_def stored_loaded eligible_def)

lemma candidateI:
  "stored g p = Some package \<Longrightarrow> eligible self package \<Longrightarrow> candidate self g p (p_group package)"
  by (auto simp: candidate_def)

lemma loaded_again:
  "loaded (fst (loaded self a g)) b (snd (loaded self a g)) = loaded self (a @ b) g"
  by (rule loaded_loaded) simp

text \<open>
  An invariant of the manifest that single loads and group admissions keep holds for
  the manifest the loop leaves, whether it returns or raises.
\<close>

lemma load_priority_rule:
  assumes start: "I (packages self)"
    and single: "\<And>m p. I m \<Longrightarrow> length m \<noteq> 16 \<Longrightarrow> p \<notin> set m \<Longrightarrow> p \<in> set todo \<Longrightarrow>
        candidate self g p 0 \<Longrightarrow> I (m @ [p])"
    and group: "\<And>m p group_id c added rest'. I m \<Longrightarrow> length m \<noteq> 16 \<Longrightarrow> p \<notin> set m \<Longrightarrow>
        p \<in> set todo \<Longrightarrow> candidate self g p group_id \<Longrightarrow> group_id \<noteq> 0 \<Longrightarrow>
        group_count_dictionary g group_id = Some c \<Longrightarrow> int (length m) + c \<le> 16 \<Longrightarrow>
        members g group_id L = added @ rest' \<Longrightarrow>
        rest' = [] \<or> (\<exists>k \<in> set L. stored g k = None) \<Longrightarrow> I (m @ added)"
  shows "\<exists>added. final (load_priority L todo self g) = loaded self added g
           \<and> I (packages self @ added)"
  using assms
proof (induction todo arbitrary: self g)
  case Nil
  then show ?case by (intro exI [of _ "[]"]) simp
next
  case (Cons p rest)
  have keep: "\<exists>added. final (load_priority L rest self g) = loaded self added g
      \<and> I (packages self @ added)"
  proof (rule Cons.IH [OF Cons.prems(1)])
    fix m q
    assume "I m" "length m \<noteq> 16" "q \<notin> set m" "q \<in> set rest" "candidate self g q 0"
    then show "I (m @ [q])" using Cons.prems(2) [of m q] by simp
  next
    fix m q group_id c added rest'
    assume "I m" "length m \<noteq> 16" "q \<notin> set m" "q \<in> set rest" "candidate self g q group_id"
      "group_id \<noteq> 0" "group_count_dictionary g group_id = Some c" "int (length m) + c \<le> 16"
      "members g group_id L = added @ rest'" "rest' = [] \<or> (\<exists>k \<in> set L. stored g k = None)"
    then show "I (m @ added)" using Cons.prems(3) [of m q group_id c added rest'] by simp
  qed
  have step: "\<exists>added. final (load_priority L rest (fst (loaded self a g)) (snd (loaded self a g)))
        = loaded self added g \<and> I (packages self @ added)"
    if a: "I (packages self @ a)" for a
  proof -
    let ?s = "fst (loaded self a g)" and ?g = "snd (loaded self a g)"
    have "\<exists>added. final (load_priority L rest ?s ?g) = loaded ?s added ?g
        \<and> I (packages ?s @ added)"
    proof (rule Cons.IH)
      show "I (packages ?s)" using a by simp
    next
      fix m q
      assume "I m" "length m \<noteq> 16" "q \<notin> set m" "q \<in> set rest" "candidate ?s ?g q 0"
      then show "I (m @ [q])" using Cons.prems(2) [of m q] by simp
    next
      fix m q group_id c added rest'
      assume "I m" "length m \<noteq> 16" "q \<notin> set m" "q \<in> set rest" "candidate ?s ?g q group_id"
        "group_id \<noteq> 0" "group_count_dictionary ?g group_id = Some c" "int (length m) + c \<le> 16"
        "members ?g group_id L = added @ rest'"
        "rest' = [] \<or> (\<exists>k \<in> set L. stored ?g k = None)"
      then show "I (m @ added)" using Cons.prems(3) [of m q group_id c added rest']
        by simp
    qed
    then obtain added where "final (load_priority L rest ?s ?g) = loaded ?s added ?g"
      and "I (packages ?s @ added)" by blast
    then have "final (load_priority L rest ?s ?g) = loaded self (a @ added) g"
      and "I (packages self @ (a @ added))"
      by (simp_all add: loaded_again)
    then show ?thesis by blast
  qed
  show ?case
  proof (cases rule: load_priority_Cons_cases [of self L p g])
    case break
    with Cons.prems(1) show ?thesis by (intro exI [of _ "[]"]) simp
  next
    case aboard
    with keep show ?thesis by simp
  next
    case (missing e)
    with Cons.prems(1) show ?thesis by (intro exI [of _ "[]"]) simp
  next
    case (no_count package)
    with Cons.prems(1) show ?thesis by (intro exI [of _ "[]"]) simp
  next
    case (ineligible package)
    with keep show ?thesis by simp
  next
    case (single package)
    then have "candidate self g p 0" using candidateI [of g p package self] by simp
    with single Cons.prems(1) have "I (packages self @ [p])"
      by (intro Cons.prems(2)) simp_all
    from step [OF this] single show ?thesis by simp
  next
    case (too_big package c)
    with keep show ?thesis by simp
  next
    case (admit package c)
    then have "candidate self g p (p_group package)" by (intro candidateI)
    with admit Cons.prems(1) have "I (packages self @ members g (p_group package) L)"
      by (intro Cons.prems(3) [of _ p "p_group package" c _ "[]"]) simp_all
    from step [OF this] admit show ?thesis by simp
  next
    case (admit_raises package c e added rest')
    then have "candidate self g p (p_group package)" by (intro candidateI)
    with admit_raises Cons.prems(1) have "I (packages self @ added)"
      by (intro Cons.prems(3) [of _ p "p_group package" c _ rest']) simp_all
    with admit_raises show ?thesis by (intro exI [of _ added]) simp
  qed
qed

subsection \<open>The loop over the non-priority list\<close>

text \<open>
  A package of the non-priority list that is loaded: stored under \<open>p\<close>, available, and
  loaded under its own id \<open>j\<close>, which must be stored too.
\<close>

definition ready :: "Truck \<Rightarrow> Globals \<Rightarrow> int \<Rightarrow> int \<Rightarrow> bool" where
  "ready self g p j \<longleftrightarrow>
     (\<exists>package. stored g p = Some package \<and> time_available package \<le> truck_time self
        \<and> p_id package = j \<and> stored g j \<noteq> None)"

lemma ready_loaded [simp]:
  "ready (fst (loaded self added g)) (snd (loaded self added g)) p j = ready self g p j"
  by (auto simp: ready_def stored_loaded)

lemma load_non_priority_Cons_cases:
  obtains (break) "length (packages self) = 16"
      and "load_non_priority (p # rest) self g = Return (self, g)"
  | (raises) e where "length (packages self) \<noteq> 16"
      and "load_non_priority (p # rest) self g = Raise e (self, g)"
  | (unavailable) package where "length (packages self) \<noteq> 16"
      and "stored g p = Some package" and "\<not> time_available package \<le> truck_time self"
      and "load_non_priority (p # rest) self g = load_non_priority rest self g"
  | (loads) package where "length (packages self) \<noteq> 16"
      and "ready self g p (p_id package)" and "stored g p = Some package"
      and "load_non_priority (p # rest) self g =
             load_non_priority rest (fst (loaded self [p_id package] g))
               (snd (loaded self [p_id package] g))"
proof (cases "length (packages self) = 16")
  case True
  then show ?thesis using break by simp
next
  case len: False
  show ?thesis
  proof (cases rule: search_cases [of g p])
    case (raises e)
    with len show ?thesis using that(2) by simp
  next
    case absent
    with len show ?thesis using that(2) by simp
  next
    case (found package)
    show ?thesis
    proof (cases "time_available package \<le> truck_time self")
      case False
      with len found show ?thesis using unavailable [of package] by simp
    next
      case av: True
      show ?thesis
      proof (cases "stored g (p_id package)")
        case None
        then obtain e where "load_package self (p_id package) g = Raise e (self, g)"
          using load_package_missing by blast
        with len found av show ?thesis using that(2) by simp
      next
        case (Some package')
        then have "load_package self (p_id package) g = Return (loaded self [p_id package] g)"
          by (rule load_package_found)
        moreover from found av Some have "ready self g p (p_id package)"
          by (auto simp: ready_def)
        ultimately show ?thesis using len found av loads [of package]
          by (auto split: prod.splits)
      qed
    qed
  qed
qed

lemma load_non_priority_rule:
  assumes start: "I (packages self)"
    and loads: "\<And>m p j. I m \<Longrightarrow> length m \<noteq> 16 \<Longrightarrow> p \<in> set todo \<Longrightarrow> ready self g p j \<Longrightarrow>
        I (m @ [j])"
  shows "\<exists>added. final (load_non_priority todo self g) = loaded self added g
           \<and> I (packages self @ added)"
  using assms
proof (induction todo arbitrary: self g)
  case Nil
  then show ?case by (intro exI [of _ "[]"]) simp
next
  case (Cons p rest)
  have keep: "\<exists>added. final (load_non_priority rest self g) = loaded self added g
      \<and> I (packages self @ added)"
  proof (rule Cons.IH [OF Cons.prems(1)])
    fix m q j
    assume "I m" "length m \<noteq> 16" "q \<in> set rest" "ready self g q j"
    then show "I (m @ [j])" using Cons.prems(2) [of m q j] by simp
  qed
  show ?case
  proof (cases rule: load_non_priority_Cons_cases [of self p rest g])
    case break
    with Cons.prems(1) show ?thesis by (intro exI [of _ "[]"]) simp
  next
    case (raises e)
    with Cons.prems(1) show ?thesis by (intro exI [of _ "[]"]) simp
  next
    case (unavailable package)
    with keep show ?thesis by simp
  next
    case (loads package)
    let ?a = "[p_id package]"
    let ?s = "fst (loaded self ?a g)" and ?g = "snd (loaded self ?a g)"
    from loads Cons.prems(1) have a: "I (packages self @ ?a)"
      by (intro Cons.prems(2) [of _ p]) simp_all
    have "\<exists>added. final (load_non_priority rest ?s ?g) = loaded ?s added ?g
        \<and> I (packages ?s @ added)"
    proof (rule Cons.IH)
      show "I (packages ?s)" using a by simp
    next
      fix m q j
      assume "I m" "length m \<noteq> 16" "q \<in> set rest" "ready ?s ?g q j"
      then show "I (m @ [j])" using Cons.prems(2) [of m q j] by simp
    qed
    then obtain added where "final (load_non_priority rest ?s ?g) = loaded ?s added ?g"
      and "I (packages ?s @ added)" by blast
    then have "final (load_non_priority rest ?s ?g) = loaded self (?a @ added) g"
      and "I (packages self @ (?a @ added))"
      by (simp_all add: loaded_again)
    with loads show ?thesis by (intro exI [of _ "?a @ added"]) simp
  qed
qed

subsection \<open>load\_truck\<close>

lemma load_truck_rule:
  assumes start: "I (packages self)"
    and single: "\<And>m p. I m \<Longrightarrow> length m \<noteq> 16 \<Longrightarrow> p \<notin> set m \<Longrightarrow> p \<in> set L \<Longrightarrow>
        candidate self g p 0 \<Longrightarrow> I (m @ [p])"
    and group: "\<And>m p group_id c added rest'. I m \<Longrightarrow> length m \<noteq> 16 \<Longrightarrow> p \<notin> set m \<Longrightarrow>
        p \<in> set L \<Longrightarrow> candidate self g p group_id \<Longrightarrow> group_id \<noteq> 0 \<Longrightarrow>
        group_count_dictionary g group_id = Some c \<Longrightarrow> int (length m) + c \<le> 16 \<Longrightarrow>
        members g group_id L = added @ rest' \<Longrightarrow>
        rest' = [] \<or> (\<exists>k \<in> set L. stored g k = None) \<Longrightarrow> I (m @ added)"
    and loads: "\<And>m p j. I m \<Longrightarrow> length m \<noteq> 16 \<Longrightarrow> p \<in> set N \<Longrightarrow> ready self g p j \<Longrightarrow>
        I (m @ [j])"
  shows "\<exists>added. final (load_truck self L N g) = loaded self added g
           \<and> I (packages self @ added)"
proof -
  have "\<exists>added. final (load_priority L L self g) = loaded self added g
      \<and> I (packages self @ added)"
  proof (rule load_priority_rule [where I = I])
    show "I (packages self)" by (rule start)
  next
    fix m p
    assume "I m" "length m \<noteq> 16" "p \<notin> set m" "p \<in> set L" "candidate self g p 0"
    then show "I (m @ [p])" by (rule single)
  next
    fix m p group_id c added rest'
    assume "I m" "length m \<noteq> 16" "p \<notin> set m" "p \<in> set L" "candidate self g p group_id"
      "group_id \<noteq> 0" "group_count_dictionary g group_id = Some c" "int (length m) + c \<le> 16"
      "members g group_id L = added @ rest'" "rest' = [] \<or> (\<exists>k \<in> set L. stored g k = None)"
    then show "I (m @ added)" by (rule group)
  qed
  then obtain a where a: "final (load_priority L L self g) = loaded self a g"
    and Ia: "I (packages self @ a)" by blast
  show ?thesis
  proof (cases "load_priority L L self g")
    case (Raise e s)
    with a Ia show ?thesis by (intro exI [of _ a]) (simp add: load_truck_def)
  next
    case (Return s)
    let ?s = "fst (loaded self a g)" and ?g = "snd (loaded self a g)"
    from Return a have eq: "load_truck self L N g = load_non_priority N ?s ?g"
      by (simp add: load_truck_def split: prod.splits)
    have "\<exists>added. final (load_non_priority N ?s ?g) = loaded ?s added ?g
        \<and> I (packages ?s @ added)"
    proof (rule load_non_priority_rule)
      show "I (packages ?s)" using Ia by simp
    next
      fix m q j
      assume "I m" "length m \<noteq> 16" "q \<in> set N" "ready ?s ?g q j"
      then show "I (m @ [j])" using loads [of m q j] by simp
    qed
    then obtain added where "final (load_non_priority N ?s ?g) = loaded ?s added ?g"
      and "I (packages ?s @ added)" by blast
    then have "final (load_non_priority N ?s ?g) = loaded self (a @ added) g"
      and "I (packages self @ (a @ added))"
      by (simp_all add: loaded_again)
    with eq show ?thesis by (intro exI [of _ "a @ added"]) simp
  qed
qed

lemma load_truck_loaded: "\<exists>added. final (load_truck self L N g) = loaded self added g"
  using load_truck_rule [of "\<lambda>m. True" self L g N] by blast

section \<open>What driving and delivering do\<close>

text \<open>The truck after a leg of a given distance to a destination.\<close>

definition driven :: "Truck \<Rightarrow> int \<Rightarrow> rat \<Rightarrow> Truck" where
  "driven self destination distance =
     self\<lparr>truck_time := truck_time self + timedelta_seconds (distance / rate self * 3600),
          distance_traveled := distance_traveled self + distance,
          location_id := destination\<rparr>"

lemma driven_fields [simp]:
  "truck_id (driven self destination d) = truck_id self"
  "packages (driven self destination d) = packages self"
  "rate (driven self destination d) = rate self"
  "location_id (driven self destination d) = destination"
  "distance_traveled (driven self destination d) = distance_traveled self + d"
  "truck_time (driven self destination d)
     = truck_time self + timedelta_seconds (d / rate self * 3600)"
  by (simp_all add: driven_def)

lemma drive_to_cases:
  obtains (raises) e where "drive_to self destination g = Raise e (self, g)"
  | (drives) d where "lookup_distance g (location_id self) destination = Inr d"
      and "rate self \<noteq> 0"
      and "drive_to self destination g = Return (driven self destination d, g)"
proof (cases "lookup_distance g (location_id self) destination")
  case (Inl e)
  then show ?thesis using raises by (simp add: drive_to_def)
next
  case (Inr d)
  then show ?thesis using raises drives [of d]
    by (cases "rate self = 0") (simp_all add: drive_to_def driven_def)
qed

text \<open>The delivery stamp that \<open>deliver_package\<close> writes.\<close>

definition stamp_delivered :: "datetime \<Rightarrow> int \<Rightarrow> Globals \<Rightarrow> Globals" where
  "stamp_delivered T key g =
     (case stored g key of
        None \<Rightarrow> g
      | Some package \<Rightarrow> assign g key (package\<lparr>time_delivered := T\<rparr>))"

lemma stamp_delivered_fields [simp]:
  "locations (stamp_delivered T key g) = locations g"
  "priority_packages (stamp_delivered T key g) = priority_packages g"
  "non_priority_packages (stamp_delivered T key g) = non_priority_packages g"
  "group_count_dictionary (stamp_delivered T key g) = group_count_dictionary g"
  by (simp_all add: stamp_delivered_def split: option.splits)

lemma stored_stamp_delivered:
  "stored (stamp_delivered T key g) k =
     (if k = key then map_option (\<lambda>p. p\<lparr>time_delivered := T\<rparr>) (stored g k) else stored g k)"
  by (simp add: stamp_delivered_def stored_assign split: option.splits)

lemma lookup_distance_cong:
  "locations g' = locations g \<Longrightarrow> lookup_distance g' a b = lookup_distance g a b"
  by (simp add: lookup_distance_def)

text \<open>The ways a call of \<open>deliver_package\<close> can go.\<close>

lemma deliver_package_cases:
  obtains (missing) e where "stored g d = None"
      and "deliver_package self d g = Raise e (self, g)"
  | (stuck) e package where "stored g d = Some package"
      and "deliver_package self d g = Raise e (self, stamp_delivered (truck_time self) d g)"
  | (not_aboard) package dist where "stored g d = Some package"
      and "lookup_distance g (location_id self) (loc_id package) = Inr dist"
      and "rate self \<noteq> 0" and "d \<notin> set (packages self)"
      and "deliver_package self d g =
             Raise ValueError
               (driven self (loc_id package) dist, stamp_delivered (truck_time self) d g)"
  | (delivers) package dist where "stored g d = Some package"
      and "lookup_distance g (location_id self) (loc_id package) = Inr dist"
      and "rate self \<noteq> 0" and "d \<in> set (packages self)"
      and "deliver_package self d g =
             Return
               ((driven self (loc_id package) dist)\<lparr>packages := remove1 d (packages self)\<rparr>,
                stamp_delivered (truck_time self) d g)"
proof (cases rule: search_cases [of g d])
  case (raises e)
  then show ?thesis using missing by (simp add: deliver_package_def)
next
  case absent
  then show ?thesis using missing by (simp add: deliver_package_def)
next
  case (found package)
  let ?g1 = "stamp_delivered (truck_time self) d g"
  let ?p1 = "package\<lparr>time_delivered := truck_time self\<rparr>"
  from found have g1: "g\<lparr>my_hash_packages :=
      update_found (my_hash_packages g) d ?p1\<rparr> = ?g1"
    by (simp add: stamp_delivered_def assign_def)
  from found have "stored ?g1 d = Some ?p1" by (simp add: stored_stamp_delivered)
  then have s1: "ChainHashTable_search (my_hash_packages ?g1) d = Inr (Some ?p1)"
    by (simp add: stored_Some_search)
  have inc: "increment_time_and_distance self d ?g1 = drive_to self (loc_id package) ?g1"
    using s1 by (simp add: increment_time_and_distance_def)
  have dp: "deliver_package self d g =
      (case drive_to self (loc_id package) ?g1 of
         Raise e s \<Rightarrow> Raise e s
       | Return (self', g') \<Rightarrow>
           if d \<in> set (packages self')
           then Return (self'\<lparr>packages := remove1 d (packages self')\<rparr>, g')
           else Raise ValueError (self', g'))"
    using found g1 inc by (simp add: deliver_package_def Let_def)
  show ?thesis
  proof (cases rule: drive_to_cases [of self "loc_id package" ?g1])
    case (raises e)
    with dp found show ?thesis using stuck [of package e] by simp
  next
    case (drives dist)
    then have "lookup_distance g (location_id self) (loc_id package) = Inr dist"
      using lookup_distance_cong [of ?g1 g "location_id self" "loc_id package"] by simp
    with drives dp found show ?thesis
      using not_aboard [of package dist] delivers [of package dist]
      by (cases "d \<in> set (packages self)") simp_all
  qed
qed

lemma find_shortest_loop_result:
  "find_shortest_loop self g ms min_distance package_id = Inr d \<Longrightarrow>
     d = package_id \<or> d \<in> set ms"
proof (induction ms arbitrary: min_distance package_id)
  case Nil
  then show ?case by simp
next
  case (Cons k ms)
  from Cons.prems obtain md pid where
    "find_shortest_loop self g ms md pid = Inr d" and "pid = package_id \<or> pid = k"
    by (auto split: sum.splits option.splits if_splits)
  with Cons.IH [of md pid] show ?case by auto
qed

lemma find_shortest_distance_result:
  "find_shortest_distance self g = Inr d \<Longrightarrow> d = - 1 \<or> d \<in> set (packages self)"
  unfolding find_shortest_distance_def by (rule find_shortest_loop_result)

section \<open>The steps of a run\<close>

lemma after_call_fields [simp]:
  "trucks (after_call c i k r) = (trucks c)[i := fst (final r)]"
  "globals (after_call c i k r) = snd (final r)"
  by (cases r; simp add: after_call_def split: prod.splits)+

lemma after_call_control:
  "control (after_call c i k (Return s)) = k"
  "control (after_call c i k (Raise e s)) = Aborted e"
  by (simp_all add: after_call_def split: prod.splits)

lemma route_step_cases:
  obtains (while_more) "control c = AtWhile"
      and "priority_packages (globals c) \<noteq> [] \<or> non_priority_packages (globals c) \<noteq> []"
      and "route_step c = c\<lparr>control := AtFor 0\<rparr>"
  | (while_done) "control c = AtWhile"
      and "priority_packages (globals c) = []" and "non_priority_packages (globals c) = []"
      and "route_step c = c\<lparr>control := Finished\<rparr>"
  | (for_done) i where "control c = AtFor i" and "\<not> i < length (trucks c)"
      and "route_step c = c\<lparr>control := AtWhile\<rparr>"
  | (load) i where "control c = AtFor i" and "i < length (trucks c)"
      and "route_step c =
             after_call c i (AtDrain i)
               (load_truck (trucks c ! i) (priority_packages (globals c))
                  (non_priority_packages (globals c)) (globals c))"
  | (choose_raises) i e where "control c = AtDrain i" and "packages (trucks c ! i) \<noteq> []"
      and "find_shortest_distance (trucks c ! i) (globals c) = Inl e"
      and "route_step c = c\<lparr>control := Aborted e\<rparr>"
  | (deliver) i d where "control c = AtDrain i" and "packages (trucks c ! i) \<noteq> []"
      and "find_shortest_distance (trucks c ! i) (globals c) = Inr d"
      and "route_step c =
             after_call c i (AtDrain i)
               (deliver_package (trucks c ! i) d (pool_remove d (globals c)))"
  | (hub) i where "control c = AtDrain i" and "packages (trucks c ! i) = []"
      and "route_step c =
             after_call c i (AtFor (Suc i)) (return_to_hub (trucks c ! i) (globals c))"
  | (stopped) "control c = Finished \<or> (\<exists>e. control c = Aborted e)" and "route_step c = c"
proof (cases "control c")
  case AtWhile
  then show ?thesis using while_more while_done by (auto simp: route_step_def)
next
  case (AtFor i)
  then show ?thesis using for_done [of i] load [of i] by (auto simp: route_step_def)
next
  case (AtDrain i)
  show ?thesis
  proof (cases "packages (trucks c ! i) = []")
    case True
    with AtDrain show ?thesis using hub [of i] by (simp add: route_step_def)
  next
    case False
    with AtDrain show ?thesis using choose_raises [of i] deliver [of i]
      by (cases "find_shortest_distance (trucks c ! i) (globals c)") (simp_all add: route_step_def)
  qed
next
  case Finished
  then show ?thesis using stopped by (simp add: route_step_def)
next
  case (Aborted e)
  then show ?thesis using stopped by (simp add: route_step_def)
qed

text \<open>
  An invariant of the trucks and the module state that every Truck method call of the
  run keeps is kept by every step, and so holds after any number of steps.
\<close>

lemma run_Suc: "run (Suc n) c = route_step (run n c)"
  by (induction n arbitrary: c) simp_all

lemma route_step_rule:
  assumes inv: "P (trucks c) (globals c)"
    and load: "\<And>i. i < length (trucks c) \<Longrightarrow>
        P ((trucks c)[i := fst (final (load_truck (trucks c ! i) (priority_packages (globals c))
               (non_priority_packages (globals c)) (globals c)))])
          (snd (final (load_truck (trucks c ! i) (priority_packages (globals c))
               (non_priority_packages (globals c)) (globals c))))"
    and deliver: "\<And>i d. find_shortest_distance (trucks c ! i) (globals c) = Inr d \<Longrightarrow>
        P ((trucks c)[i := fst (final (deliver_package (trucks c ! i) d
               (pool_remove d (globals c))))])
          (snd (final (deliver_package (trucks c ! i) d (pool_remove d (globals c)))))"
    and hub: "\<And>i. packages (trucks c ! i) = [] \<Longrightarrow>
        P ((trucks c)[i := fst (final (return_to_hub (trucks c ! i) (globals c)))])
          (snd (final (return_to_hub (trucks c ! i) (globals c))))"
  shows "P (trucks (route_step c)) (globals (route_step c))"
proof (cases rule: route_step_cases [of c])
  case (load i)
  then show ?thesis using assms(2) [of i] by simp
next
  case (deliver i d)
  then show ?thesis using assms(3) [of i d] by simp
next
  case (hub i)
  then show ?thesis using assms(4) [of i] by simp
qed (simp_all add: inv)

section \<open>Clock and odometer\<close>

definition nonneg_distances :: "Globals \<Rightarrow> bool" where
  "nonneg_distances g \<longleftrightarrow>
     (\<forall>location \<in> set (locations g). \<forall>d \<in> set (distances location). 0 \<le> d)"

text \<open>
  A call leaves the truck's clock and odometer at or past where they were, in the state
  it returns or raises with.
\<close>

definition not_set_back :: "Truck \<Rightarrow> (Truck \<times> Globals) outcome \<Rightarrow> bool" where
  "not_set_back self r \<longleftrightarrow>
     truck_time self \<le> truck_time (fst (final r))
     \<and> distance_traveled self \<le> distance_traveled (fst (final r))"

lemma py_index_mem: "py_index xs i = Inr x \<Longrightarrow> x \<in> set xs"
  by (auto simp: py_index_def split: if_splits)

lemma lookup_distance_nonneg:
  "nonneg_distances g \<Longrightarrow> lookup_distance g a b = Inr d \<Longrightarrow> 0 \<le> d"
  by (auto simp: lookup_distance_def nonneg_distances_def split: sum.splits dest!: py_index_mem)

lemma round_half_even_nonneg: "0 \<le> x \<Longrightarrow> 0 \<le> round_half_even x"
proof -
  assume "0 \<le> x"
  then have "0 \<le> \<lfloor>x\<rfloor>" by simp
  then show ?thesis by (simp add: round_half_even_def Let_def)
qed

lemma timedelta_seconds_nonneg: "0 \<le> s \<Longrightarrow> 0 \<le> timedelta_seconds s"
  by (simp add: timedelta_seconds_def round_half_even_nonneg)

lemma driven_not_earlier:
  assumes "0 \<le> d" and "0 \<le> rate self"
  shows "truck_time self \<le> truck_time (driven self destination d)"
    and "distance_traveled self \<le> distance_traveled (driven self destination d)"
proof -
  from assms have "0 \<le> d / rate self * 3600" by simp
  then have "0 \<le> timedelta_seconds (d / rate self * 3600)" by (rule timedelta_seconds_nonneg)
  then show "truck_time self \<le> truck_time (driven self destination d)" by simp
  from assms(1) show "distance_traveled self \<le> distance_traveled (driven self destination d)"
    by simp
qed

lemma drive_to_not_set_back:
  assumes "nonneg_distances g" and "0 \<le> rate self"
  shows "not_set_back self (drive_to self destination g)"
proof (cases rule: drive_to_cases [of self destination g])
  case (raises e)
  then show ?thesis by (simp add: not_set_back_def)
next
  case (drives d)
  with assms(1) have "0 \<le> d" using lookup_distance_nonneg by blast
  with drives assms(2) show ?thesis
    using driven_not_earlier [of d self destination] by (simp add: not_set_back_def)
qed

lemma deliver_package_not_set_back:
  assumes "nonneg_distances g" and "0 \<le> rate self"
  shows "not_set_back self (deliver_package self d g)"
proof (cases rule: deliver_package_cases [of g d self])
  case (missing e)
  then show ?thesis by (simp add: not_set_back_def)
next
  case (stuck e package)
  then show ?thesis by (simp add: not_set_back_def)
next
  case (not_aboard package dist)
  with assms(1) have "0 \<le> dist" using lookup_distance_nonneg by blast
  with not_aboard assms(2) show ?thesis
    using driven_not_earlier [of dist self "loc_id package"] by (simp add: not_set_back_def)
next
  case (delivers package dist)
  with assms(1) have "0 \<le> dist" using lookup_distance_nonneg by blast
  with delivers assms(2) show ?thesis
    using driven_not_earlier [of dist self "loc_id package"] by (simp add: not_set_back_def)
qed

lemma increment_not_set_back:
  assumes "nonneg_distances g" and "0 \<le> rate self"
  shows "not_set_back self (increment_time_and_distance self p g)"
proof (cases rule: search_cases [of g p])
  case (raises e)
  then show ?thesis by (simp add: increment_time_and_distance_def not_set_back_def)
next
  case absent
  then show ?thesis by (simp add: increment_time_and_distance_def not_set_back_def)
next
  case (found package)
  with drive_to_not_set_back [OF assms, of "loc_id package"] show ?thesis
    by (simp add: increment_time_and_distance_def)
qed

lemma load_package_not_set_back: "not_set_back self (load_package self p g)"
proof (cases "stored g p")
  case None
  then obtain e where "load_package self p g = Raise e (self, g)"
    using load_package_missing by blast
  then show ?thesis by (simp add: not_set_back_def)
next
  case (Some package)
  then show ?thesis by (simp add: load_package_found not_set_back_def)
qed

lemma load_truck_not_set_back: "not_set_back self (load_truck self L N g)"
proof -
  from load_truck_loaded [of self L N g] obtain added where
    "final (load_truck self L N g) = loaded self added g" by blast
  then show ?thesis by (simp add: not_set_back_def)
qed

text \<open>
  C10. With no negative entry in the distance table (and the truck's constant speed not
  negative: the constructor sets it to 18), \<open>load_truck\<close>, \<open>load_package\<close>,
  \<open>increment_time_and_distance\<close>, \<open>deliver_package\<close> and \<open>return_to_hub\<close> each leave
  the truck's clock and odometer at or past their values before the call, whether the
  call returns or raises. \<open>find_shortest_distance\<close> only reads: it yields an id and has
  no state to leave.
\<close>

theorem clock_and_odometer_never_decrease:
  assumes "nonneg_distances g" and "0 \<le> rate self"
  shows "not_set_back self (load_truck self priority_packages_list non_priority_packages_list g)
       \<and> not_set_back self (load_package self package_id g)
       \<and> not_set_back self (increment_time_and_distance self package_id g)
       \<and> not_set_back self (deliver_package self package_id g)
       \<and> not_set_back self (return_to_hub self g)"
  using assms
  by (simp add: load_truck_not_set_back load_package_not_set_back increment_not_set_back
      deliver_package_not_set_back drive_to_not_set_back return_to_hub_def)

theorem clock_and_odometer_never_decrease_witness:
  "(let g = ex_globals ex_single; self = truck_1\<lparr>packages := [1]\<rparr>
    in nonneg_distances g \<and> 0 \<le> rate self
       \<and> not_set_back self (load_truck self [1] [] g)
       \<and> not_set_back self (load_package self 1 g)
       \<and> not_set_back self (increment_time_and_distance self 1 g)
       \<and> not_set_back self (deliver_package self 1 g)
       \<and> not_set_back self (return_to_hub self g)
       \<and> truck_time (fst (final (deliver_package self 1 g))) = time_of_day 8 30 0
       \<and> distance_traveled (fst (final (deliver_package self 1 g))) = 9)"
proof -
  have d: "nonneg_distances (ex_globals ex_single)" by code_simp
  have r: "0 \<le> rate (truck_1\<lparr>packages := [1]\<rparr>)" by (simp add: truck_1_def Truck_init_def)
  have t: "truck_time (fst (final (deliver_package (truck_1\<lparr>packages := [1]\<rparr>) 1 (ex_globals ex_single))))
      = time_of_day 8 30 0" by code_simp
  have o: "distance_traveled (fst (final (deliver_package (truck_1\<lparr>packages := [1]\<rparr>) 1 (ex_globals ex_single))))
      = 9" by code_simp
  from clock_and_odometer_never_decrease [OF d r, of "[1]" "[]" 1] d r t o
  show ?thesis unfolding Let_def by blast
qed

section \<open>The capacity of a truck\<close>

text \<open>
  The precomputed size of every non-zero group is at least the number of ids of the
  priority list whose package has the group.
\<close>

definition group_counts_cover :: "Globals \<Rightarrow> bool" where
  "group_counts_cover g \<longleftrightarrow>
     (\<forall>group_id. group_id \<noteq> 0 \<longrightarrow>
        int (length (members g group_id (priority_packages g)))
          \<le> (case group_count_dictionary g group_id of Some c \<Rightarrow> c | None \<Rightarrow> 0))"

lemma load_truck_capacity:
  assumes cover: "group_counts_cover g" and len: "length (packages self) \<le> 16"
  shows "length (packages (fst (final (load_truck self (priority_packages g) N g)))) \<le> 16"
proof -
  have "\<exists>added. final (load_truck self (priority_packages g) N g) = loaded self added g
      \<and> length (packages self @ added) \<le> 16"
  proof (rule load_truck_rule [where I = "\<lambda>m. length m \<le> 16"])
    show "length (packages self) \<le> 16" by (rule len)
  next
    fix m :: "int list" and p
    assume "length m \<le> 16" "length m \<noteq> 16"
    then show "length (m @ [p]) \<le> 16" by simp
  next
    fix m :: "int list" and p group_id c added rest'
    assume fits: "int (length m) + c \<le> 16" and gid: "group_id \<noteq> 0"
      and c: "group_count_dictionary g group_id = Some c"
      and mem: "members g group_id (priority_packages g) = added @ rest'"
    from cover gid c have "int (length (members g group_id (priority_packages g))) \<le> c"
      by (auto simp: group_counts_cover_def)
    with mem have "int (length added) \<le> c" by simp
    with fits show "length (m @ added) \<le> 16" by simp
  next
    fix m :: "int list" and p j
    assume "length m \<le> 16" "length m \<noteq> 16"
    then show "length (m @ [j]) \<le> 16" by simp
  qed
  then show ?thesis by auto
qed

lemma stored_cong:
  "my_hash_packages g' = my_hash_packages g \<Longrightarrow> stored g' k = stored g k"
  by (simp add: stored_def)

lemma group_of_cong:
  "my_hash_packages g' = my_hash_packages g \<Longrightarrow> group_of g' k = group_of g k"
  by (simp add: group_of_def stored_def)

lemma members_cong:
  "(\<And>k. k \<in> set ids \<Longrightarrow> group_of g' k = group_of g k) \<Longrightarrow>
     members g' group_id ids = members g group_id ids"
  unfolding members_def by (rule filter_cong) simp_all

lemma group_of_stamp_delivered [simp]:
  "group_of (stamp_delivered T key g) k = group_of g k"
  by (simp add: group_of_def stored_stamp_delivered option.map_comp o_def)

lemma length_filter_remove1: "length (filter P (remove1 x xs)) \<le> length (filter P xs)"
  by (induction xs) auto

lemma length_members_remove1:
  "length (members g group_id (remove1 d ids)) \<le> length (members g group_id ids)"
  unfolding members_def by (rule length_filter_remove1)

lemma cover_loaded: "group_counts_cover g \<Longrightarrow> group_counts_cover (snd (loaded self added g))"
  by (simp add: group_counts_cover_def)

lemma cover_stamp_delivered:
  "group_counts_cover g \<Longrightarrow> group_counts_cover (stamp_delivered T key g)"
  by (simp add: group_counts_cover_def members_def)

lemma pool_remove_fields [simp]:
  "locations (pool_remove d g) = locations g"
  "group_count_dictionary (pool_remove d g) = group_count_dictionary g"
  "my_hash_packages (pool_remove d g) = my_hash_packages g"
  by (simp_all add: pool_remove_def)

lemma pool_remove_priority:
  "priority_packages (pool_remove d g) = priority_packages g
   \<or> priority_packages (pool_remove d g) = remove1 d (priority_packages g)"
  by (simp add: pool_remove_def)

lemma group_of_pool_remove [simp]: "group_of (pool_remove d g) k = group_of g k"
  by (rule group_of_cong) simp

lemma cover_pool_remove:
  assumes "group_counts_cover g"
  shows "group_counts_cover (pool_remove d g)"
  unfolding group_counts_cover_def
proof (intro allI impI)
  fix group_id :: int
  assume gid: "group_id \<noteq> 0"
  let ?bound = "case group_count_dictionary g group_id of Some c \<Rightarrow> c | None \<Rightarrow> 0"
  have same: "members (pool_remove d g) group_id ids = members g group_id ids" for ids
    by (simp add: members_def)
  have "length (members g group_id (priority_packages (pool_remove d g)))
      \<le> length (members g group_id (priority_packages g))"
    using pool_remove_priority [of d g] length_members_remove1 [of g group_id d "priority_packages g"]
    by auto
  moreover from assms gid have "int (length (members g group_id (priority_packages g))) \<le> ?bound"
    by (simp add: group_counts_cover_def)
  ultimately have "int (length (members g group_id (priority_packages (pool_remove d g)))) \<le> ?bound"
    by linarith
  then show "int (length (members (pool_remove d g) group_id (priority_packages (pool_remove d g))))
      \<le> (case group_count_dictionary (pool_remove d g) group_id of Some c \<Rightarrow> c | None \<Rightarrow> 0)"
    by (simp add: same)
qed

lemma deliver_package_final:
  obtains (unchanged) "final (deliver_package self d g) = (self, g)"
  | (stamped) "final (deliver_package self d g) = (self, stamp_delivered (truck_time self) d g)"
  | (moved) package dist where "stored g d = Some package"
      and "lookup_distance g (location_id self) (loc_id package) = Inr dist"
      and "d \<notin> set (packages self)"
      and "final (deliver_package self d g) =
             (driven self (loc_id package) dist, stamp_delivered (truck_time self) d g)"
  | (delivered) package dist where "stored g d = Some package"
      and "lookup_distance g (location_id self) (loc_id package) = Inr dist"
      and "d \<in> set (packages self)"
      and "deliver_package self d g =
             Return ((driven self (loc_id package) dist)\<lparr>packages := remove1 d (packages self)\<rparr>,
                stamp_delivered (truck_time self) d g)"
proof (cases rule: deliver_package_cases [of g d self])
  case (missing e)
  then show ?thesis using unchanged by simp
next
  case (stuck e package)
  then show ?thesis using stamped by simp
next
  case (not_aboard package dist)
  then show ?thesis using moved [of package dist] by simp
next
  case (delivers package dist)
  then show ?thesis using delivered [of package dist] by simp
qed

lemma deliver_package_shrinks:
  "length (packages (fst (final (deliver_package self d g)))) \<le> length (packages self)"
  by (cases rule: deliver_package_final [of self d g]) (simp_all add: length_remove1)

lemma deliver_package_globals:
  "snd (final (deliver_package self d g)) = g
   \<or> snd (final (deliver_package self d g)) = stamp_delivered (truck_time self) d g"
  by (cases rule: deliver_package_final [of self d g]) simp_all

lemma return_to_hub_final:
  "packages (fst (final (return_to_hub self g))) = packages self"
  "snd (final (return_to_hub self g)) = g"
  by (cases rule: drive_to_cases [of self 0 g]; simp add: return_to_hub_def)+

definition within_capacity :: "Truck list \<Rightarrow> Globals \<Rightarrow> bool" where
  "within_capacity ts g \<longleftrightarrow>
     group_counts_cover g \<and> (\<forall>truck \<in> set ts. length (packages truck) \<le> 16)"

lemma within_capacity_update:
  assumes "\<forall>truck \<in> set ts. length (packages truck) \<le> 16"
    and "i < length ts \<Longrightarrow> length (packages t') \<le> 16"
  shows "\<forall>truck \<in> set (ts[i := t']). length (packages truck) \<le> 16"
proof (cases "i < length ts")
  case True
  with assms show ?thesis
    using set_update_subset_insert [of ts i t'] by auto
next
  case False
  then have "ts[i := t'] = ts" by (intro list_update_beyond) simp
  with assms(1) show ?thesis by simp
qed

lemma route_step_within_capacity:
  assumes "within_capacity (trucks c) (globals c)"
  shows "within_capacity (trucks (route_step c)) (globals (route_step c))"
proof (rule route_step_rule [where P = within_capacity])
  show "within_capacity (trucks c) (globals c)" by (rule assms)
next
  fix i
  assume i: "i < length (trucks c)"
  let ?r = "load_truck (trucks c ! i) (priority_packages (globals c))
      (non_priority_packages (globals c)) (globals c)"
  from assms i have "length (packages (trucks c ! i)) \<le> 16"
    by (simp add: within_capacity_def)
  with assms have "length (packages (fst (final ?r))) \<le> 16"
    by (intro load_truck_capacity) (simp_all add: within_capacity_def)
  moreover obtain added where "final ?r = loaded (trucks c ! i) added (globals c)"
    using load_truck_loaded by blast
  ultimately show "within_capacity ((trucks c)[i := fst (final ?r)]) (snd (final ?r))"
    using assms within_capacity_update [of "trucks c" i "fst (final ?r)"]
    by (simp add: within_capacity_def cover_loaded)
next
  fix i d
  let ?r = "deliver_package (trucks c ! i) d (pool_remove d (globals c))"
  from assms have cover: "group_counts_cover (pool_remove d (globals c))"
    by (simp add: within_capacity_def cover_pool_remove)
  then have "group_counts_cover (snd (final ?r))"
    using deliver_package_globals [of "trucks c ! i" d "pool_remove d (globals c)"]
    by (auto simp: cover_stamp_delivered)
  moreover have "length (packages (fst (final ?r))) \<le> 16" if "i < length (trucks c)"
  proof -
    from assms that have "length (packages (trucks c ! i)) \<le> 16"
      by (simp add: within_capacity_def)
    with deliver_package_shrinks [of "trucks c ! i" d "pool_remove d (globals c)"]
    show ?thesis by simp
  qed
  ultimately show "within_capacity ((trucks c)[i := fst (final ?r)]) (snd (final ?r))"
    using assms within_capacity_update [of "trucks c" i "fst (final ?r)"]
    by (simp add: within_capacity_def)
next
  fix i
  let ?r = "return_to_hub (trucks c ! i) (globals c)"
  have "length (packages (fst (final ?r))) \<le> 16" if "i < length (trucks c)"
    using assms that by (simp add: return_to_hub_final within_capacity_def)
  then show "within_capacity ((trucks c)[i := fst (final ?r)]) (snd (final ?r))"
    using assms within_capacity_update [of "trucks c" i "fst (final ?r)"]
    by (simp add: within_capacity_def return_to_hub_final)
qed

lemma run_within_capacity:
  "within_capacity (trucks c) (globals c) \<Longrightarrow>
     within_capacity (trucks (run n c)) (globals (run n c))"
  by (induction n arbitrary: c) (simp_all add: route_step_within_capacity)

section \<open>The state that the input files leave\<close>

definition is_priority :: "Package \<Rightarrow> bool" where
  "is_priority row \<longleftrightarrow> deadline row < end_of_day \<or> p_req_truck row \<noteq> 0 \<or> p_group row \<noteq> 0"

lemma stored_insert:
  assumes "ChainHashTable_insert (my_hash_packages g) key item = Inr t'"
    and "my_hash_packages g' = t'"
  shows "stored g' k = (if k = key then Some item else stored g k)"
proof (cases "k = key")
  case True
  with assms show ?thesis by (simp add: stored_def search_insert_same)
next
  case False
  with assms(1) have "ChainHashTable_search t' k = ChainHashTable_search (my_hash_packages g) k"
    by (intro search_insert_other)
  with False assms(2) show ?thesis by (simp add: stored_def)
qed

text \<open>One row either raises (the table has no bucket) or is filed as follows.\<close>

lemma load_package_row_cases:
  obtains (raises) e where "load_package_row row (n, g) = Raise e (n, g)"
  | (returns) g' where "load_package_row row (n, g) = Return (n + 1, g')"
      and "locations g' = locations g"
      and "\<And>k. stored g' k =
             (if k = p_id row
              then Some (row\<lparr>loc_id := resolve_loc_id (locations g) (p_address row) (- 1)\<rparr>)
              else stored g k)"
      and "group_count_dictionary g' =
             (if p_group row \<noteq> 0
              then (group_count_dictionary g)
                     (p_group row \<mapsto>
                        (case group_count_dictionary g (p_group row) of
                           Some c \<Rightarrow> c + 1 | None \<Rightarrow> 1))
              else group_count_dictionary g)"
      and "priority_packages g' =
             (if is_priority row then priority_packages g @ [p_id row] else priority_packages g)"
      and "non_priority_packages g' =
             (if is_priority row then non_priority_packages g
              else non_priority_packages g @ [p_id row])"
proof -
  let ?p = "row\<lparr>loc_id := resolve_loc_id (locations g) (p_address row) (- 1)\<rparr>"
  show thesis
  proof (cases "ChainHashTable_insert (my_hash_packages g) (p_id row) ?p")
    case (Inl e)
    then show ?thesis using raises [of e] by (simp add: load_package_row_def)
  next
    case (Inr t')
    let ?g1 = "g\<lparr>my_hash_packages := t'\<rparr>"
    let ?g2 = "if p_group row \<noteq> 0 then
                 ?g1\<lparr>group_count_dictionary :=
                      (group_count_dictionary g)
                        (p_group row \<mapsto>
                           (case group_count_dictionary g (p_group row) of
                              Some n \<Rightarrow> n + 1 | None \<Rightarrow> 1))\<rparr>
               else ?g1"
    let ?g3 = "if is_priority row
               then ?g2\<lparr>priority_packages := priority_packages g @ [p_id row]\<rparr>
               else ?g2\<lparr>non_priority_packages := non_priority_packages g @ [p_id row]\<rparr>"
    have eq: "load_package_row row (n, g) = Return (n + 1, ?g3)"
      using Inr by (simp add: load_package_row_def Let_def is_priority_def)
    have t: "my_hash_packages ?g3 = t'" by simp
    show ?thesis
    proof (rule returns [of ?g3])
      show "load_package_row row (n, g) = Return (n + 1, ?g3)" by (rule eq)
      show "locations ?g3 = locations g" by simp
      show "stored ?g3 k = (if k = p_id row then Some ?p else stored g k)" for k
        using Inr t by (rule stored_insert)
      show "group_count_dictionary ?g3 =
             (if p_group row \<noteq> 0
              then (group_count_dictionary g)
                     (p_group row \<mapsto>
                        (case group_count_dictionary g (p_group row) of
                           Some c \<Rightarrow> c + 1 | None \<Rightarrow> 1))
              else group_count_dictionary g)" by simp
      show "priority_packages ?g3 =
             (if is_priority row then priority_packages g @ [p_id row] else priority_packages g)"
        by simp
      show "non_priority_packages ?g3 =
             (if is_priority row then non_priority_packages g
              else non_priority_packages g @ [p_id row])" by simp
    qed
  qed
qed

lemma members_append:
  "members g group_id (xs @ ys) = members g group_id xs @ members g group_id ys"
  by (simp add: members_def)

lemma cover_row:
  assumes cover: "group_counts_cover g"
    and fresh: "stored g (p_id row) = None"
    and known: "\<forall>k \<in> set (priority_packages g). stored g k \<noteq> None"
    and row: "load_package_row row (n, g) = Return (n', g')"
  shows "group_counts_cover g'"
proof (cases rule: load_package_row_cases [of row n g])
  case (raises e)
  with row show ?thesis by simp
next
  case (returns g'')
  with row have g': "g'' = g'" by simp
  note st = returns(3) [unfolded g'] and cnt = returns(4) [unfolded g']
    and pri = returns(5) [unfolded g']
  have old: "members g' group_id (priority_packages g) = members g group_id (priority_packages g)"
    for group_id
  proof (rule members_cong)
    fix k assume "k \<in> set (priority_packages g)"
    with known fresh have "k \<noteq> p_id row" by auto
    then show "group_of g' k = group_of g k" by (simp add: group_of_def st)
  qed
  have new: "group_of g' (p_id row) = Some (p_group row)"
    by (simp add: group_of_def st)
  show ?thesis
    unfolding group_counts_cover_def
  proof (intro allI impI)
    fix group_id :: int
    assume gid: "group_id \<noteq> 0"
    from cover gid have c: "int (length (members g group_id (priority_packages g)))
        \<le> (case group_count_dictionary g group_id of Some c \<Rightarrow> c | None \<Rightarrow> 0)"
      by (simp add: group_counts_cover_def)
    show "int (length (members g' group_id (priority_packages g')))
        \<le> (case group_count_dictionary g' group_id of Some c \<Rightarrow> c | None \<Rightarrow> 0)"
    proof (cases "p_group row = group_id")
      case True
      with gid have "is_priority row" by (simp add: is_priority_def)
      with True gid c show ?thesis
        by (simp add: pri cnt members_append old new split: option.splits)
    next
      case False
      with gid c show ?thesis
        by (simp add: pri cnt members_append old new)
    qed
  qed
qed

lemma load_package_rows_Cons:
  assumes "load_package_rows (row # rows) (n, g) = Return (n', g')"
  obtains n1 g1 where "load_package_row row (n, g) = Return (n1, g1)"
    and "load_package_rows rows (n1, g1) = Return (n', g')"
  using assms by (auto split: outcome.splits)

lemma row_keeps_fresh:
  assumes "load_package_row row (n, g) = Return (n1, g1)" and "k \<noteq> p_id row"
  shows "stored g1 k = stored g k"
  using assms by (cases rule: load_package_row_cases [of row n g]) auto

lemma row_priority:
  assumes "load_package_row row (n, g) = Return (n1, g1)"
  shows "set (priority_packages g1) \<subseteq> insert (p_id row) (set (priority_packages g))"
    and "set (non_priority_packages g1) \<subseteq> insert (p_id row) (set (non_priority_packages g))"
  using assms by (cases rule: load_package_row_cases [of row n g]; auto)+

lemma row_stored_self:
  assumes "load_package_row row (n, g) = Return (n1, g1)"
  shows "stored g1 (p_id row) \<noteq> None"
  using assms by (cases rule: load_package_row_cases [of row n g]) auto

lemma load_package_rows_cover:
  assumes "load_package_rows rows (n, g) = Return (n', g')"
    and "distinct (map p_id rows)"
    and "\<forall>row \<in> set rows. stored g (p_id row) = None"
    and "\<forall>k \<in> set (priority_packages g). stored g k \<noteq> None"
    and "group_counts_cover g"
  shows "group_counts_cover g'"
  using assms
proof (induction rows arbitrary: n g)
  case Nil
  then show ?case by simp
next
  case (Cons row rows)
  from Cons.prems(1) obtain n1 g1 where
    r: "load_package_row row (n, g) = Return (n1, g1)"
    and rest: "load_package_rows rows (n1, g1) = Return (n', g')"
    by (rule load_package_rows_Cons)
  from rest show ?case
  proof (rule Cons.IH)
    show "distinct (map p_id rows)" using Cons.prems(2) by simp
    show "\<forall>row' \<in> set rows. stored g1 (p_id row') = None"
    proof
      fix row' assume in_rows: "row' \<in> set rows"
      with Cons.prems(2) have "p_id row' \<noteq> p_id row" by (auto simp: image_iff)
      with r have "stored g1 (p_id row') = stored g (p_id row')" by (rule row_keeps_fresh)
      with Cons.prems(3) in_rows show "stored g1 (p_id row') = None" by simp
    qed
    show "\<forall>k \<in> set (priority_packages g1). stored g1 k \<noteq> None"
    proof
      fix k assume k: "k \<in> set (priority_packages g1)"
      show "stored g1 k \<noteq> None"
      proof (cases "k = p_id row")
        case True
        with r show ?thesis using row_stored_self by blast
      next
        case False
        with k row_priority(1) [OF r] have "k \<in> set (priority_packages g)" by auto
        with Cons.prems(4) False r show ?thesis by (simp add: row_keeps_fresh)
      qed
    qed
    show "group_counts_cover g1"
      using Cons.prems(5) _ Cons.prems(4) r
    proof (rule cover_row)
      show "stored g (p_id row) = None" using Cons.prems(3) by simp
    qed
  qed
qed

lemma stored_empty_globals:
  "stored (load_location_data location_rows empty_globals) k = None"
  by (simp add: stored_def load_location_data_def empty_globals_def search_init)

lemma startup_cover:
  assumes "startup location_rows package_rows = Return (num_packages, g)"
    and "distinct (map p_id package_rows)"
  shows "group_counts_cover g"
proof -
  let ?g0 = "load_location_data location_rows empty_globals"
  from assms(1) have "load_package_rows package_rows (0, ?g0) = Return (num_packages, g)"
    by (simp add: startup_def load_package_data_def)
  then show ?thesis using assms(2)
  proof (rule load_package_rows_cover)
    show "\<forall>row \<in> set package_rows. stored ?g0 (p_id row) = None"
      by (simp add: stored_empty_globals)
    show "\<forall>k \<in> set (priority_packages ?g0). stored ?g0 k \<noteq> None"
      by (simp add: load_location_data_def empty_globals_def)
    show "group_counts_cover ?g0"
      by (simp add: group_counts_cover_def load_location_data_def empty_globals_def)
  qed
qed

text \<open>
  C4. From the state that the input files leave (package ids distinct, as the data
  model has them) and trucks that hold at most 16 packages (the constructor leaves the
  manifest empty), after any number of steps of \<open>route_packages\<close> every truck holds at
  most 16 package ids; and the \<open>load_truck\<close> call that the run would make on any truck
  in such a state leaves at most 16 in that truck's manifest, group admissions
  included, in the state it returns or raises with. (A manifest only grows inside
  \<open>load_truck\<close>, so the bound on what the call leaves bounds every moment of it.)
\<close>

theorem manifest_never_exceeds_capacity:
  assumes "startup location_rows package_rows = Return (num_packages, g)"
    and "distinct (map p_id package_rows)"
    and "\<forall>truck \<in> set ts. length (packages truck) \<le> 16"
  shows "(\<forall>truck \<in> set (trucks (run n (route_packages_entry ts g))).
            length (packages truck) \<le> 16)
       \<and> (\<forall>truck \<in> set (trucks (run n (route_packages_entry ts g))).
            length (packages (fst (final
              (load_truck truck
                 (priority_packages (globals (run n (route_packages_entry ts g))))
                 (non_priority_packages (globals (run n (route_packages_entry ts g))))
                 (globals (run n (route_packages_entry ts g))))))) \<le> 16)"
proof -
  let ?c = "run n (route_packages_entry ts g)"
  from assms(1,2) have "group_counts_cover g" by (rule startup_cover)
  with assms(3) have "within_capacity (trucks (route_packages_entry ts g))
      (globals (route_packages_entry ts g))"
    by (simp add: within_capacity_def route_packages_entry_def)
  then have inv: "within_capacity (trucks ?c) (globals ?c)" by (rule run_within_capacity)
  then have "\<forall>truck \<in> set (trucks ?c). length (packages truck) \<le> 16"
    by (simp add: within_capacity_def)
  moreover have "length (packages (fst (final
      (load_truck truck (priority_packages (globals ?c)) (non_priority_packages (globals ?c))
         (globals ?c))))) \<le> 16" if "truck \<in> set (trucks ?c)" for truck
    using inv that by (intro load_truck_capacity) (simp_all add: within_capacity_def)
  ultimately show ?thesis by blast
qed

theorem manifest_never_exceeds_capacity_witness:
  "startup ex_locations ex_group_affinity = Return (2, ex_globals ex_group_affinity)
   \<and> distinct (map p_id ex_group_affinity)
   \<and> list_all (\<lambda>truck. length (packages truck) \<le> 16) truck_list
   \<and> map packages (trucks (run 2 (route_packages_entry truck_list (ex_globals ex_group_affinity))))
       = [[1, 2], []]
   \<and> list_all (\<lambda>truck. length (packages truck) \<le> 16)
       (trucks (run 2 (route_packages_entry truck_list (ex_globals ex_group_affinity))))"
proof -
  have "returned (startup ex_locations ex_group_affinity)" by code_simp
  moreover have "fst (final (startup ex_locations ex_group_affinity)) = 2" by code_simp
  ultimately have s: "startup ex_locations ex_group_affinity = Return (2, ex_globals ex_group_affinity)"
    by (cases "startup ex_locations ex_group_affinity") (auto simp: ex_globals_def)
  have d: "distinct (map p_id ex_group_affinity)" by code_simp
  have t: "\<forall>truck \<in> set truck_list. length (packages truck) \<le> 16" by code_simp
  have m: "map packages (trucks (run 2 (route_packages_entry truck_list (ex_globals ex_group_affinity))))
       = [[1, 2], []]" by code_simp
  from manifest_never_exceeds_capacity [OF s d t, of 2] s d t m
  show ?thesis by (simp add: list_all_iff)
qed

section \<open>The order of a package's timestamps\<close>

text \<open>
  What the run guarantees of the timestamps of a delivered package, and of a package
  aboard a truck; a package is pending while its id is in one of the two pools.
\<close>

definition settled :: "Package \<Rightarrow> bool" where
  "settled package \<longleftrightarrow>
     time_pickup package \<le> time_delivered package
     \<and> (p_group package = 0 \<longrightarrow> time_available package \<le> time_pickup package)"

definition aboard_ok :: "Globals \<Rightarrow> Truck \<Rightarrow> bool" where
  "aboard_ok g truck \<longleftrightarrow>
     (\<forall>k \<in> set (packages truck). \<exists>package. stored g k = Some package
        \<and> time_pickup package \<le> truck_time truck
        \<and> (p_group package = 0 \<longrightarrow> time_available package \<le> time_pickup package))"

definition pending :: "Globals \<Rightarrow> int \<Rightarrow> bool" where
  "pending g k \<longleftrightarrow> k \<in> set (priority_packages g) \<or> k \<in> set (non_priority_packages g)"

definition keyed :: "Globals \<Rightarrow> bool" where
  "keyed g \<longleftrightarrow> (\<forall>k package. stored g k = Some package \<longrightarrow> p_id package = k)"

text \<open>Which trucks can have packages aboard at a control point.\<close>

fun quiet :: "control \<Rightarrow> Truck list \<Rightarrow> bool" where
  "quiet (AtDrain i) ts \<longleftrightarrow>
     i < length ts \<and> (\<forall>j < length ts. j \<noteq> i \<longrightarrow> packages (ts ! j) = [])"
| "quiet (Aborted e) ts \<longleftrightarrow> True"
| "quiet AtWhile ts \<longleftrightarrow> (\<forall>j < length ts. packages (ts ! j) = [])"
| "quiet (AtFor i) ts \<longleftrightarrow> (\<forall>j < length ts. packages (ts ! j) = [])"
| "quiet Finished ts \<longleftrightarrow> (\<forall>j < length ts. packages (ts ! j) = [])"

definition timely_state :: "Truck list \<Rightarrow> Globals \<Rightarrow> bool" where
  "timely_state ts g \<longleftrightarrow>
     keyed g \<and> nonneg_distances g
     \<and> (\<forall>j < length ts. 0 \<le> rate (ts ! j) \<and> aboard_ok g (ts ! j))
     \<and> (\<forall>k package. stored g k = Some package \<longrightarrow> pending g k \<or> settled package)"

definition timely :: "Config \<Rightarrow> bool" where
  "timely c \<longleftrightarrow>
     (\<exists>e. control c = Aborted e)
     \<or> (timely_state (trucks c) (globals c) \<and> quiet (control c) (trucks c)
        \<and> (control c = Finished \<longrightarrow>
              priority_packages (globals c) = [] \<and> non_priority_packages (globals c) = []))"

lemma timely_aborted [simp]: "control c = Aborted e \<Longrightarrow> timely c"
  by (simp add: timely_def)

lemma after_call_raise_timely: "timely (after_call c i k (Raise e s))"
  by (simp add: timely_def after_call_control)

text \<open>Loading.\<close>

lemma load_truck_timely:
  assumes keyed: "keyed g" and empty: "packages self = []"
  shows "\<exists>added. final (load_truck self (priority_packages g) (non_priority_packages g) g)
           = loaded self added g
         \<and> (\<forall>k \<in> set added. pending g k
               \<and> (\<exists>package. stored g k = Some package
                     \<and> (p_group package = 0 \<longrightarrow> time_available package \<le> truck_time self)))"
proof -
  let ?I = "\<lambda>m. \<forall>k \<in> set m. pending g k
               \<and> (\<exists>package. stored g k = Some package
                     \<and> (p_group package = 0 \<longrightarrow> time_available package \<le> truck_time self))"
  have "\<exists>added. final (load_truck self (priority_packages g) (non_priority_packages g) g)
           = loaded self added g \<and> ?I (packages self @ added)"
  proof (rule load_truck_rule [where I = ?I])
    show "?I (packages self)" by (simp add: empty)
  next
    fix m p
    assume "?I m" and p: "p \<in> set (priority_packages g)" and c: "candidate self g p 0"
    from c obtain package where "stored g p = Some package" "p_group package = 0"
      "time_available package \<le> truck_time self"
      by (auto simp: candidate_def eligible_def)
    with \<open>?I m\<close> p show "?I (m @ [p])" by (auto simp: pending_def)
  next
    fix m p group_id c added rest'
    assume m: "?I m" and gid: "group_id \<noteq> 0"
      and mem: "members g group_id (priority_packages g) = added @ rest'"
    have "pending g k \<and> (\<exists>package. stored g k = Some package
        \<and> (p_group package = 0 \<longrightarrow> time_available package \<le> truck_time self))"
      if "k \<in> set added" for k
    proof -
      from that mem have "k \<in> set (members g group_id (priority_packages g))" by simp
      then have "k \<in> set (priority_packages g)" and "group_of g k = Some group_id"
        by (simp_all add: members_def)
      with gid show ?thesis by (auto simp: pending_def group_of_def)
    qed
    with m show "?I (m @ added)" by auto
  next
    fix m p j
    assume m: "?I m" and p: "p \<in> set (non_priority_packages g)" and r: "ready self g p j"
    from r obtain package where st: "stored g p = Some package"
      and av: "time_available package \<le> truck_time self" and j: "p_id package = j"
      by (auto simp: ready_def)
    from keyed st j have "j = p" by (auto simp: keyed_def)
    with m p st av show "?I (m @ [j])" by (auto simp: pending_def)
  qed
  then show ?thesis by (simp add: empty)
qed

lemma stored_pool_remove [simp]: "stored (pool_remove d g) k = stored g k"
  by (rule stored_cong) simp

lemma nonneg_distances_cong:
  "locations g' = locations g \<Longrightarrow> nonneg_distances g' = nonneg_distances g"
  by (simp add: nonneg_distances_def)

lemma keyed_loaded: "keyed g \<Longrightarrow> keyed (snd (loaded self added g))"
  by (auto simp: keyed_def stored_loaded split: if_splits)

lemma keyed_stamp_delivered: "keyed g \<Longrightarrow> keyed (stamp_delivered T d g)"
  by (auto simp: keyed_def stored_stamp_delivered split: if_splits)

lemma keyed_pool_remove: "keyed g \<Longrightarrow> keyed (pool_remove d g)"
  by (simp add: keyed_def)

lemma aboard_ok_empty: "packages truck = [] \<Longrightarrow> aboard_ok g truck"
  by (simp add: aboard_ok_def)

lemma pending_loaded [simp]: "pending (snd (loaded self added g)) k = pending g k"
  by (simp add: pending_def)

lemma pending_stamp_delivered [simp]: "pending (stamp_delivered T d g) k = pending g k"
  by (simp add: pending_def)

lemma pending_pool_remove: "pending g k \<Longrightarrow> k \<noteq> d \<Longrightarrow> pending (pool_remove d g) k"
  by (auto simp: pending_def pool_remove_def)

lemma timely_load:
  assumes t: "timely c" and at: "control c = AtFor i" and i: "i < length (trucks c)"
  shows "timely (after_call c i (AtDrain i)
           (load_truck (trucks c ! i) (priority_packages (globals c))
              (non_priority_packages (globals c)) (globals c)))"
proof -
  let ?ts = "trucks c" and ?g = "globals c"
  let ?self = "?ts ! i"
  let ?r = "load_truck ?self (priority_packages ?g) (non_priority_packages ?g) ?g"
  from t at have st: "timely_state ?ts ?g" and q: "\<forall>j < length ?ts. packages (?ts ! j) = []"
    by (simp_all add: timely_def)
  from st have keyed: "keyed ?g" and nonneg: "nonneg_distances ?g"
    and rates: "\<forall>j < length ?ts. 0 \<le> rate (?ts ! j)"
    and sett: "\<forall>k package. stored ?g k = Some package \<longrightarrow> pending ?g k \<or> settled package"
    by (simp_all add: timely_state_def)
  from q i have empty: "packages ?self = []" by simp
  from load_truck_timely [OF keyed empty] obtain added where
    fin: "final ?r = loaded ?self added ?g"
    and added: "\<forall>k \<in> set added. pending ?g k
      \<and> (\<exists>package. stored ?g k = Some package
            \<and> (p_group package = 0 \<longrightarrow> time_available package \<le> truck_time ?self))"
    by blast
  show ?thesis
  proof (cases ?r)
    case (Raise e s)
    then show ?thesis by (simp add: after_call_raise_timely)
  next
    case (Return s)
    with fin have s: "s = loaded ?self added ?g" by simp
    let ?self' = "fst (loaded ?self added ?g)" and ?g' = "snd (loaded ?self added ?g)"
    let ?c' = "after_call c i (AtDrain i) ?r"
    have ctl: "control ?c' = AtDrain i" using Return by (simp add: after_call_control)
    have ts': "trucks ?c' = ?ts[i := ?self']" and g': "globals ?c' = ?g'"
      using fin by simp_all
    have ab: "aboard_ok ?g' ?self'"
      unfolding aboard_ok_def
    proof
      fix k assume "k \<in> set (packages ?self')"
      with empty have k: "k \<in> set added" by simp
      with added obtain package where "stored ?g k = Some package"
        and "p_group package = 0 \<longrightarrow> time_available package \<le> truck_time ?self"
        by blast
      with k show "\<exists>package. stored ?g' k = Some package
          \<and> time_pickup package \<le> truck_time ?self'
          \<and> (p_group package = 0 \<longrightarrow> time_available package \<le> time_pickup package)"
        by (simp add: stored_loaded)
    qed
    have trucks_ok: "0 \<le> rate ((?ts[i := ?self']) ! j) \<and> aboard_ok ?g' ((?ts[i := ?self']) ! j)"
      if "j < length ?ts" for j
    proof (cases "j = i")
      case True
      with i rates ab show ?thesis by simp
    next
      case False
      with that rates q show ?thesis by (simp add: aboard_ok_empty)
    qed
    have sett': "pending ?g' k \<or> settled package" if "stored ?g' k = Some package" for k package
    proof (cases "k \<in> set added")
      case True
      with added show ?thesis by simp
    next
      case False
      with that have "stored ?g k = Some package" by (simp add: stored_loaded)
      with sett show ?thesis by simp
    qed
    have "timely_state (?ts[i := ?self']) ?g'"
      unfolding timely_state_def
      using keyed nonneg trucks_ok sett'
      by (simp add: keyed_loaded nonneg_distances_cong [of ?g' ?g])
    moreover have "quiet (AtDrain i) (?ts[i := ?self'])"
      using i q by simp
    ultimately show ?thesis
      unfolding timely_def ctl ts' g' by simp
  qed
qed

lemma timely_deliver:
  assumes t: "timely c" and at: "control c = AtDrain i"
  shows "timely (after_call c i (AtDrain i)
           (deliver_package (trucks c ! i) d (pool_remove d (globals c))))"
proof -
  let ?ts = "trucks c" and ?g = "globals c"
  let ?self = "?ts ! i"
  let ?g1 = "pool_remove d ?g"
  let ?r = "deliver_package ?self d ?g1"
  let ?T = "truck_time ?self"
  from t at have st: "timely_state ?ts ?g" and i: "i < length ?ts"
    and q: "\<forall>j < length ?ts. j \<noteq> i \<longrightarrow> packages (?ts ! j) = []"
    by (simp_all add: timely_def)
  from st have keyed: "keyed ?g" and nonneg: "nonneg_distances ?g"
    and rates: "\<forall>j < length ?ts. 0 \<le> rate (?ts ! j)"
    and aboard: "\<forall>j < length ?ts. aboard_ok ?g (?ts ! j)"
    and sett: "\<forall>k package. stored ?g k = Some package \<longrightarrow> pending ?g k \<or> settled package"
    by (simp_all add: timely_state_def)
  show ?thesis
  proof (cases rule: deliver_package_cases [of ?g1 d ?self])
    case (missing e)
    then show ?thesis by (simp add: after_call_raise_timely)
  next
    case (stuck e package)
    then show ?thesis by (simp add: after_call_raise_timely)
  next
    case (not_aboard package dist)
    then show ?thesis by (simp add: after_call_raise_timely)
  next
    case (delivers package dist)
    let ?self' = "(driven ?self (loc_id package) dist)\<lparr>packages := remove1 d (packages ?self)\<rparr>"
    let ?g' = "stamp_delivered ?T d ?g1"
    let ?c' = "after_call c i (AtDrain i) ?r"
    from delivers have st_d: "stored ?g d = Some package" by simp
    have ctl: "control ?c' = AtDrain i" using delivers by (simp add: after_call_control)
    have ts': "trucks ?c' = ?ts[i := ?self']" and g': "globals ?c' = ?g'"
      using delivers by simp_all
    from nonneg have "nonneg_distances ?g1" by (simp add: nonneg_distances_cong [of ?g1 ?g])
    with delivers have "0 \<le> dist" using lookup_distance_nonneg by blast
    with rates i have later: "?T \<le> truck_time ?self'"
      using driven_not_earlier(1) [of dist ?self "loc_id package"] by simp
    from aboard i have ab: "aboard_ok ?g ?self" by simp
    have stored': "stored ?g' k =
        (if k = d then Some (package\<lparr>time_delivered := ?T\<rparr>) else stored ?g k)" for k
      using st_d by (simp add: stored_stamp_delivered)
    have ab': "aboard_ok ?g' ?self'"
      unfolding aboard_ok_def
    proof
      fix k assume "k \<in> set (packages ?self')"
      then have "k \<in> set (packages ?self)"
        using set_remove1_subset [of d "packages ?self"] by auto
      with ab obtain pk where pk: "stored ?g k = Some pk" "time_pickup pk \<le> ?T"
        "p_group pk = 0 \<longrightarrow> time_available pk \<le> time_pickup pk"
        by (auto simp: aboard_ok_def)
      show "\<exists>pk'. stored ?g' k = Some pk' \<and> time_pickup pk' \<le> truck_time ?self'
          \<and> (p_group pk' = 0 \<longrightarrow> time_available pk' \<le> time_pickup pk')"
      proof (cases "k = d")
        case True
        with pk st_d later show ?thesis by (simp add: stored')
      next
        case False
        with pk later show ?thesis by (simp add: stored')
      qed
    qed
    have trucks_ok: "0 \<le> rate ((?ts[i := ?self']) ! j) \<and> aboard_ok ?g' ((?ts[i := ?self']) ! j)"
      if "j < length ?ts" for j
    proof (cases "j = i")
      case True
      with i rates ab' show ?thesis by simp
    next
      case False
      with that rates q show ?thesis by (simp add: aboard_ok_empty)
    qed
    have sett': "pending ?g' k \<or> settled pk" if "stored ?g' k = Some pk" for k pk
    proof (cases "k = d")
      case True
      with that have pk: "pk = package\<lparr>time_delivered := ?T\<rparr>" by (simp add: stored')
      from delivers ab st_d have "time_pickup package \<le> ?T"
        and "p_group package = 0 \<longrightarrow> time_available package \<le> time_pickup package"
        by (auto simp: aboard_ok_def)
      with pk show ?thesis by (simp add: settled_def)
    next
      case False
      with that have "stored ?g k = Some pk" by (simp add: stored')
      with sett have "pending ?g k \<or> settled pk" by simp
      with False show ?thesis by (auto simp: pending_pool_remove)
    qed
    have "timely_state (?ts[i := ?self']) ?g'"
      unfolding timely_state_def
      using keyed nonneg trucks_ok sett'
      by (simp add: keyed_stamp_delivered keyed_pool_remove nonneg_distances_cong [of ?g' ?g])
    moreover have "quiet (AtDrain i) (?ts[i := ?self'])"
      using i q by simp
    ultimately show ?thesis
      unfolding timely_def ctl ts' g' by simp
  qed
qed

lemma timely_hub:
  assumes t: "timely c" and at: "control c = AtDrain i" and empty: "packages (trucks c ! i) = []"
  shows "timely (after_call c i (AtFor (Suc i)) (return_to_hub (trucks c ! i) (globals c)))"
proof -
  let ?ts = "trucks c" and ?g = "globals c"
  let ?self = "?ts ! i"
  let ?r = "return_to_hub ?self ?g"
  from t at have st: "timely_state ?ts ?g" and i: "i < length ?ts"
    and q: "\<forall>j < length ?ts. j \<noteq> i \<longrightarrow> packages (?ts ! j) = []"
    by (simp_all add: timely_def)
  show ?thesis
  proof (cases rule: drive_to_cases [of ?self 0 ?g])
    case (raises e)
    then show ?thesis by (simp add: return_to_hub_def after_call_raise_timely)
  next
    case (drives dist)
    let ?self' = "driven ?self 0 dist"
    let ?c' = "after_call c i (AtFor (Suc i)) ?r"
    have ctl: "control ?c' = AtFor (Suc i)"
      using drives by (simp add: return_to_hub_def after_call_control)
    have ts': "trucks ?c' = ?ts[i := ?self']" and g': "globals ?c' = ?g"
      using drives by (simp_all add: return_to_hub_def)
    have all_empty: "packages ((?ts[i := ?self']) ! j) = []" if "j < length ?ts" for j
      using that q i empty by (cases "j = i") simp_all
    have "0 \<le> rate ((?ts[i := ?self']) ! j) \<and> aboard_ok ?g ((?ts[i := ?self']) ! j)"
      if "j < length ?ts" for j
      using that st i all_empty [of j]
      by (cases "j = i") (simp_all add: timely_state_def aboard_ok_empty)
    with st have "timely_state (?ts[i := ?self']) ?g"
      by (simp add: timely_state_def)
    moreover have "quiet (AtFor (Suc i)) (?ts[i := ?self'])"
      using all_empty by simp
    ultimately show ?thesis
      unfolding timely_def ctl ts' g' by simp
  qed
qed

lemma route_step_timely:
  assumes "timely c"
  shows "timely (route_step c)"
proof (cases rule: route_step_cases [of c])
  case while_more
  with assms show ?thesis by (auto simp: timely_def)
next
  case while_done
  with assms show ?thesis by (auto simp: timely_def)
next
  case (for_done i)
  with assms show ?thesis by (auto simp: timely_def)
next
  case (load i)
  with assms show ?thesis by (simp add: timely_load)
next
  case (choose_raises i e)
  then show ?thesis by simp
next
  case (deliver i d)
  with assms show ?thesis by (simp add: timely_deliver)
next
  case (hub i)
  with assms show ?thesis by (simp add: timely_hub)
next
  case stopped
  with assms show ?thesis by simp
qed

lemma run_timely: "timely c \<Longrightarrow> timely (run n c)"
  by (induction n arbitrary: c) (simp_all add: route_step_timely)

text \<open>
  After the input files every stored package is stored under its own id and is pending.
\<close>

definition filed :: "Globals \<Rightarrow> bool" where
  "filed g \<longleftrightarrow> keyed g \<and> (\<forall>k package. stored g k = Some package \<longrightarrow> pending g k)"

lemma filed_row:
  assumes "filed g" and row: "load_package_row row (n, g) = Return (n', g')"
  shows "filed g'"
proof (cases rule: load_package_row_cases [of row n g])
  case (raises e)
  with row show ?thesis by simp
next
  case (returns g'')
  with row have g': "g'' = g'" by simp
  note st = returns(3) [unfolded g'] and pri = returns(5) [unfolded g']
    and non = returns(6) [unfolded g']
  have "p_id package = k \<and> pending g' k" if "stored g' k = Some package" for k package
  proof (cases "k = p_id row")
    case True
    with that show ?thesis by (auto simp: st pending_def pri non)
  next
    case False
    with that have "stored g k = Some package" by (simp add: st)
    with assms(1) have "p_id package = k" and "pending g k" by (auto simp: filed_def keyed_def)
    then show ?thesis by (auto simp: pending_def pri non)
  qed
  then show ?thesis by (auto simp: filed_def keyed_def)
qed

lemma filed_rows:
  "filed g \<Longrightarrow> load_package_rows rows (n, g) = Return (n', g') \<Longrightarrow> filed g'"
proof (induction rows arbitrary: n g)
  case Nil
  then show ?case by simp
next
  case (Cons row rows)
  from Cons.prems(2) obtain n1 g1 where
    r: "load_package_row row (n, g) = Return (n1, g1)"
    and rest: "load_package_rows rows (n1, g1) = Return (n', g')"
    by (rule load_package_rows_Cons)
  from Cons.prems(1) r have "filed g1" by (rule filed_row)
  then show ?case using rest by (rule Cons.IH)
qed

lemma startup_filed:
  assumes "startup location_rows package_rows = Return (num_packages, g)"
  shows "filed g"
proof -
  let ?g0 = "load_location_data location_rows empty_globals"
  have "filed ?g0" by (simp add: filed_def keyed_def stored_empty_globals)
  moreover from assms have "load_package_rows package_rows (0, ?g0) = Return (num_packages, g)"
    by (simp add: startup_def load_package_data_def)
  ultimately show ?thesis by (rule filed_rows)
qed

lemma entry_timely:
  assumes "filed g" and "nonneg_distances g"
    and "\<forall>truck \<in> set ts. packages truck = [] \<and> 0 \<le> rate truck"
  shows "timely (route_packages_entry ts g)"
  using assms
  by (auto simp: timely_def timely_state_def route_packages_entry_def filed_def aboard_ok_empty)

text \<open>
  C3 as stated fails: a package is loaded when its available time is at or before the
  truck's clock and is stamped with that clock, and the first package a truck delivers
  is stamped with the clock it was loaded at. One package, available at 08:00, and
  truck 1 starting at 08:00: the run completes with all three timestamps at 08:00.
\<close>

theorem timestamps_not_strictly_increasing_counterexample:
  "(case route_packages 8 truck_list (ex_globals ex_single) of
      Some (Return (ts, g)) \<Rightarrow>
        (case stored g 1 of
           Some p \<Rightarrow>
             time_available p = time_of_day 8 0 0
             \<and> time_pickup p = time_of_day 8 0 0
             \<and> time_delivered p = time_of_day 8 0 0
             \<and> \<not> (time_delivered p > time_pickup p \<and> time_pickup p > time_available p)
         | None \<Rightarrow> False)
    | _ \<Rightarrow> False)"
  by code_simp

text \<open>
  C3, amended: after \<open>route_packages\<close> completes, every package satisfies delivered
  timestamp \<open>\<ge>\<close> pickup timestamp, and every package of group 0 satisfies pickup
  timestamp \<open>\<ge>\<close> available timestamp. (The state is the one the input files leave, no
  distance is negative, and the trucks start empty with a speed that is not negative.)
\<close>

theorem timestamps_in_order_after_run:
  assumes "startup location_rows package_rows = Return (num_packages, g)"
    and "nonneg_distances g"
    and "\<forall>truck \<in> set ts. packages truck = [] \<and> 0 \<le> rate truck"
    and "route_packages n ts g = Some (Return (ts', g'))"
    and "stored g' k = Some package"
  shows "time_pickup package \<le> time_delivered package
       \<and> (p_group package = 0 \<longrightarrow> time_available package \<le> time_pickup package)"
proof -
  let ?c = "run n (route_packages_entry ts g)"
  from assms(4) have fin: "control ?c = Finished" and g': "globals ?c = g'"
    by (auto simp: route_packages_def Let_def split: control.splits)
  from assms(1) have "filed g" by (rule startup_filed)
  then have "timely (route_packages_entry ts g)" using assms(2,3) by (rule entry_timely)
  then have "timely ?c" by (rule run_timely)
  with fin g' have st: "timely_state (trucks ?c) g'"
    and empty: "priority_packages g' = []" "non_priority_packages g' = []"
    by (auto simp: timely_def)
  from empty have "\<not> pending g' k" by (simp add: pending_def)
  with st assms(5) have "settled package" by (auto simp: timely_state_def)
  then show ?thesis by (simp add: settled_def)
qed

theorem timestamps_in_order_after_run_witness:
  "(\<exists>ts' g' package.
      startup ex_locations ex_single = Return (1, ex_globals ex_single)
      \<and> nonneg_distances (ex_globals ex_single)
      \<and> list_all (\<lambda>truck. packages truck = [] \<and> 0 \<le> rate truck) truck_list
      \<and> route_packages 8 truck_list (ex_globals ex_single) = Some (Return (ts', g'))
      \<and> stored g' 1 = Some package
      \<and> p_group package = 0
      \<and> time_available package \<le> time_pickup package
      \<and> time_pickup package \<le> time_delivered package)"
proof -
  have "returned (startup ex_locations ex_single)" by code_simp
  moreover have "fst (final (startup ex_locations ex_single)) = 1" by code_simp
  ultimately have s: "startup ex_locations ex_single = Return (1, ex_globals ex_single)"
    by (cases "startup ex_locations ex_single") (auto simp: ex_globals_def)
  have d: "nonneg_distances (ex_globals ex_single)" by code_simp
  have t: "\<forall>truck \<in> set truck_list. packages truck = [] \<and> 0 \<le> rate truck" by code_simp
  have "control (run 8 (route_packages_entry truck_list (ex_globals ex_single))) = Finished"
    by code_simp
  then have r: "route_packages 8 truck_list (ex_globals ex_single)
      = Some (Return (trucks (run 8 (route_packages_entry truck_list (ex_globals ex_single))),
                      globals (run 8 (route_packages_entry truck_list (ex_globals ex_single)))))"
    by (simp add: route_packages_def Let_def)
  let ?g' = "globals (run 8 (route_packages_entry truck_list (ex_globals ex_single)))"
  have "map_option p_group (stored ?g' 1) = Some 0" by code_simp
  then obtain package where p: "stored ?g' 1 = Some package" and grp: "p_group package = 0"
    by auto
  from timestamps_in_order_after_run [OF s d t r p] grp
  have "time_available package \<le> time_pickup package"
    and "time_pickup package \<le> time_delivered package" by simp_all
  with s d t r p grp show ?thesis by (auto simp: list_all_iff)
qed

section \<open>Group admission\<close>

lemma load_priority_full:
  "length (packages self) = 16 \<Longrightarrow> load_priority L todo self g = Return (self, g)"
  by (cases todo) simp_all

text \<open>
  The state in which the loop visits an id is the state the loop over the ids before it
  returns.
\<close>

lemma load_priority_append:
  "load_priority L pre self g = Return (s1, g1) \<Longrightarrow>
     load_priority L (pre @ todo) self g = load_priority L todo s1 g1"
proof (induction pre arbitrary: self g)
  case Nil
  then show ?case by simp
next
  case (Cons p pre)
  show ?case
  proof (cases rule: load_priority_Cons_cases [of self L p g])
    case break
    with Cons.prems show ?thesis by (simp add: load_priority_full)
  next
    case aboard
    with Cons.prems Cons.IH [of self g] show ?thesis by simp
  next
    case (missing e)
    with Cons.prems show ?thesis by simp
  next
    case (no_count package)
    with Cons.prems show ?thesis by simp
  next
    case (ineligible package)
    with Cons.prems Cons.IH [of self g] show ?thesis
      by (simp add: stored_Some_search eligible_def)
  next
    case (single package)
    let ?s = "fst (loaded self [p] g)" and ?g = "snd (loaded self [p] g)"
    from single have lp: "load_package self p g = Return (?s, ?g)"
      by (simp add: load_package_found)
    from single Cons.prems have "load_priority L pre ?s ?g = Return (s1, g1)" by simp
    then have "load_priority L (pre @ todo) ?s ?g = load_priority L todo s1 g1"
      by (rule Cons.IH)
    with single lp show ?thesis
      by (simp add: stored_Some_search eligible_def)
  next
    case (too_big package c)
    with Cons.prems Cons.IH [of self g] show ?thesis
      by (simp add: stored_Some_search eligible_def)
  next
    case (admit package c)
    let ?a = "members g (p_group package) L"
    let ?s = "fst (loaded self ?a g)" and ?g = "snd (loaded self ?a g)"
    from admit Cons.prems have "load_priority L pre ?s ?g = Return (s1, g1)" by simp
    then have ih: "load_priority L (pre @ todo) ?s ?g = load_priority L todo s1 g1"
      by (rule Cons.IH)
    have "load_group L (p_group package) self g = Return (?s, ?g)"
    proof (cases rule: load_group_outcome [of L "p_group package" self g])
      case returns
      then show ?thesis by simp
    next
      case (raises e added rest')
      with admit have "load_priority L (p # pre) self g = Raise e (loaded self added g)"
        by (simp add: stored_Some_search eligible_def)
      with Cons.prems show ?thesis by simp
    qed
    with admit ih show ?thesis
      by (simp add: stored_Some_search eligible_def)
  next
    case (admit_raises package c e added rest')
    with Cons.prems show ?thesis by simp
  qed
qed

text \<open>What is left of a pass of \<open>load_truck\<close> once the priority loop has reached \<open>todo\<close>.\<close>

definition rest_of_pass ::
  "int list \<Rightarrow> int list \<Rightarrow> int list \<Rightarrow> Truck \<Rightarrow> Globals \<Rightarrow> (Truck \<times> Globals) outcome" where
  "rest_of_pass L todo N self g =
     (case load_priority L todo self g of
        Return (self', g') \<Rightarrow> load_non_priority N self' g'
      | Raise e s \<Rightarrow> Raise e s)"

lemma load_truck_rest_of_pass: "load_truck self L N g = rest_of_pass L L N self g"
  by (simp add: load_truck_def rest_of_pass_def)

lemma rest_of_pass_append:
  "load_priority L pre self g = Return (s1, g1) \<Longrightarrow>
     rest_of_pass L (pre @ todo) N self g = rest_of_pass L todo N s1 g1"
  by (simp add: rest_of_pass_def load_priority_append)

lemma rest_of_pass_rule:
  assumes start: "I (packages self)"
    and single: "\<And>m p. I m \<Longrightarrow> length m \<noteq> 16 \<Longrightarrow> p \<notin> set m \<Longrightarrow> p \<in> set todo \<Longrightarrow>
        candidate self g p 0 \<Longrightarrow> I (m @ [p])"
    and group: "\<And>m p group_id c added rest'. I m \<Longrightarrow> length m \<noteq> 16 \<Longrightarrow> p \<notin> set m \<Longrightarrow>
        p \<in> set todo \<Longrightarrow> candidate self g p group_id \<Longrightarrow> group_id \<noteq> 0 \<Longrightarrow>
        group_count_dictionary g group_id = Some c \<Longrightarrow> int (length m) + c \<le> 16 \<Longrightarrow>
        members g group_id L = added @ rest' \<Longrightarrow>
        rest' = [] \<or> (\<exists>k \<in> set L. stored g k = None) \<Longrightarrow> I (m @ added)"
    and loads: "\<And>m p j. I m \<Longrightarrow> length m \<noteq> 16 \<Longrightarrow> p \<in> set N \<Longrightarrow> ready self g p j \<Longrightarrow>
        I (m @ [j])"
  shows "\<exists>added. final (rest_of_pass L todo N self g) = loaded self added g
           \<and> I (packages self @ added)"
proof -
  have "\<exists>added. final (load_priority L todo self g) = loaded self added g
      \<and> I (packages self @ added)"
  proof (rule load_priority_rule [where I = I])
    show "I (packages self)" by (rule start)
  next
    fix m p
    assume "I m" "length m \<noteq> 16" "p \<notin> set m" "p \<in> set todo" "candidate self g p 0"
    then show "I (m @ [p])" by (rule single)
  next
    fix m p group_id c added rest'
    assume "I m" "length m \<noteq> 16" "p \<notin> set m" "p \<in> set todo" "candidate self g p group_id"
      "group_id \<noteq> 0" "group_count_dictionary g group_id = Some c" "int (length m) + c \<le> 16"
      "members g group_id L = added @ rest'" "rest' = [] \<or> (\<exists>k \<in> set L. stored g k = None)"
    then show "I (m @ added)" by (rule group)
  qed
  then obtain a where a: "final (load_priority L todo self g) = loaded self a g"
    and Ia: "I (packages self @ a)" by blast
  show ?thesis
  proof (cases "load_priority L todo self g")
    case (Raise e s)
    with a Ia show ?thesis by (intro exI [of _ a]) (simp add: rest_of_pass_def)
  next
    case (Return s)
    let ?s = "fst (loaded self a g)" and ?g = "snd (loaded self a g)"
    from Return a have eq: "rest_of_pass L todo N self g = load_non_priority N ?s ?g"
      by (simp add: rest_of_pass_def split: prod.splits)
    have "\<exists>added. final (load_non_priority N ?s ?g) = loaded ?s added ?g
        \<and> I (packages ?s @ added)"
    proof (rule load_non_priority_rule)
      show "I (packages ?s)" using Ia by simp
    next
      fix m q j
      assume "I m" "length m \<noteq> 16" "q \<in> set N" "ready ?s ?g q j"
      then show "I (m @ [j])" using loads [of m q j] by simp
    qed
    then obtain added where "final (load_non_priority N ?s ?g) = loaded ?s added ?g"
      and "I (packages ?s @ added)" by blast
    then have "final (load_non_priority N ?s ?g) = loaded self (a @ added) g"
      and "I (packages self @ (a @ added))"
      by (simp_all add: loaded_again)
    with eq show ?thesis by (intro exI [of _ "a @ added"]) simp
  qed
qed

lemma rest_of_pass_loaded:
  "\<exists>added. final (rest_of_pass L todo N self g) = loaded self added g"
  using rest_of_pass_rule [of "\<lambda>m. True" self todo g L N] by blast

lemma load_priority_loaded:
  "\<exists>added. final (load_priority L todo self g) = loaded self added g"
  using load_priority_rule [of "\<lambda>m. True" self todo g L] by blast

text \<open>
  The two pools as the input files leave them and every step keeps them: packages are
  stored under their own ids, the priority list has no id twice and only stored ids, and
  the non-priority list has packages of group 0 only.
\<close>

definition pools_ok :: "Globals \<Rightarrow> bool" where
  "pools_ok g \<longleftrightarrow>
     keyed g \<and> distinct (priority_packages g)
     \<and> (\<forall>k \<in> set (priority_packages g). stored g k \<noteq> None)
     \<and> (\<forall>k \<in> set (non_priority_packages g). group_of g k = Some 0)"

lemma pools_ok_loaded: "pools_ok g \<Longrightarrow> pools_ok (snd (loaded self added g))"
  by (simp add: pools_ok_def keyed_loaded)

lemma pools_ok_stamp_delivered: "pools_ok g \<Longrightarrow> pools_ok (stamp_delivered T d g)"
  by (simp add: pools_ok_def keyed_stamp_delivered stored_stamp_delivered)

lemma pool_remove_pools:
  "distinct (priority_packages g) \<Longrightarrow> distinct (priority_packages (pool_remove d g))"
  "set (priority_packages (pool_remove d g)) \<subseteq> set (priority_packages g)"
  "set (non_priority_packages (pool_remove d g)) \<subseteq> set (non_priority_packages g)"
  using set_remove1_subset [of d "priority_packages g"]
    set_remove1_subset [of d "non_priority_packages g"]
  by (auto simp: pool_remove_def)

lemma pools_ok_pool_remove:
  assumes "pools_ok g"
  shows "pools_ok (pool_remove d g)"
proof -
  from assms have "keyed (pool_remove d g)" by (simp add: pools_ok_def keyed_pool_remove)
  moreover from assms have "distinct (priority_packages (pool_remove d g))"
    by (simp add: pools_ok_def pool_remove_pools(1))
  moreover have "stored (pool_remove d g) k \<noteq> None"
    if "k \<in> set (priority_packages (pool_remove d g))" for k
    using that assms pool_remove_pools(2) [of d g] by (auto simp: pools_ok_def)
  moreover have "group_of (pool_remove d g) k = Some 0"
    if "k \<in> set (non_priority_packages (pool_remove d g))" for k
    using that assms pool_remove_pools(3) [of d g] by (auto simp: pools_ok_def)
  ultimately show ?thesis by (simp add: pools_ok_def)
qed

lemma route_step_pools_ok:
  assumes "pools_ok (globals c)"
  shows "pools_ok (globals (route_step c))"
proof (rule route_step_rule [where P = "\<lambda>ts g. pools_ok g"])
  show "pools_ok (globals c)" by (rule assms)
next
  fix i
  let ?r = "load_truck (trucks c ! i) (priority_packages (globals c))
      (non_priority_packages (globals c)) (globals c)"
  obtain added where "final ?r = loaded (trucks c ! i) added (globals c)"
    using load_truck_loaded by blast
  with assms show "pools_ok (snd (final ?r))" by (simp add: pools_ok_loaded)
next
  fix i d
  from assms have "pools_ok (pool_remove d (globals c))" by (rule pools_ok_pool_remove)
  then show "pools_ok (snd (final (deliver_package (trucks c ! i) d (pool_remove d (globals c)))))"
    using deliver_package_globals [of "trucks c ! i" d "pool_remove d (globals c)"]
    by (auto simp: pools_ok_stamp_delivered)
next
  fix i
  from assms show "pools_ok (snd (final (return_to_hub (trucks c ! i) (globals c))))"
    by (simp add: return_to_hub_final)
qed

lemma run_pools_ok: "pools_ok (globals c) \<Longrightarrow> pools_ok (globals (run n c))"
  by (induction n arbitrary: c) (simp_all add: route_step_pools_ok)

lemma pools_ok_row:
  assumes ok: "pools_ok g"
    and fresh: "stored g (p_id row) = None"
    and known: "\<forall>k \<in> set (non_priority_packages g). stored g k \<noteq> None"
    and row: "load_package_row row (n, g) = Return (n', g')"
  shows "pools_ok g'"
proof (cases rule: load_package_row_cases [of row n g])
  case (raises e)
  with row show ?thesis by simp
next
  case (returns g'')
  with row have g': "g'' = g'" by simp
  note st = returns(3) [unfolded g'] and pri = returns(5) [unfolded g']
    and non = returns(6) [unfolded g']
  from ok fresh have not_pri: "p_id row \<notin> set (priority_packages g)"
    by (auto simp: pools_ok_def)
  have "keyed g'"
    using ok by (auto simp: pools_ok_def keyed_def st split: if_splits)
  moreover have "distinct (priority_packages g')"
    using ok not_pri by (simp add: pools_ok_def pri)
  moreover have "stored g' k \<noteq> None" if "k \<in> set (priority_packages g')" for k
    using that ok by (auto simp: pools_ok_def pri st split: if_splits)
  moreover have "group_of g' k = Some 0" if "k \<in> set (non_priority_packages g')" for k
  proof (cases "k = p_id row")
    case True
    with that known fresh have "\<not> is_priority row" by (auto simp: non split: if_splits)
    then have "p_group row = 0" by (simp add: is_priority_def)
    with True show ?thesis by (simp add: group_of_def st)
  next
    case False
    with that have "k \<in> set (non_priority_packages g)" by (auto simp: non split: if_splits)
    with ok False show ?thesis by (simp add: pools_ok_def group_of_def st)
  qed
  ultimately show ?thesis by (simp add: pools_ok_def)
qed

lemma load_package_rows_pools_ok:
  assumes "load_package_rows rows (n, g) = Return (n', g')"
    and "distinct (map p_id rows)"
    and "\<forall>row \<in> set rows. stored g (p_id row) = None"
    and "\<forall>k \<in> set (non_priority_packages g). stored g k \<noteq> None"
    and "pools_ok g"
  shows "pools_ok g'"
  using assms
proof (induction rows arbitrary: n g)
  case Nil
  then show ?case by simp
next
  case (Cons row rows)
  from Cons.prems(1) obtain n1 g1 where
    r: "load_package_row row (n, g) = Return (n1, g1)"
    and rest: "load_package_rows rows (n1, g1) = Return (n', g')"
    by (rule load_package_rows_Cons)
  from rest show ?case
  proof (rule Cons.IH)
    show "distinct (map p_id rows)" using Cons.prems(2) by simp
    show "\<forall>row' \<in> set rows. stored g1 (p_id row') = None"
    proof
      fix row' assume in_rows: "row' \<in> set rows"
      with Cons.prems(2) have "p_id row' \<noteq> p_id row" by (auto simp: image_iff)
      with r have "stored g1 (p_id row') = stored g (p_id row')" by (rule row_keeps_fresh)
      with Cons.prems(3) in_rows show "stored g1 (p_id row') = None" by simp
    qed
    show "\<forall>k \<in> set (non_priority_packages g1). stored g1 k \<noteq> None"
    proof
      fix k assume k: "k \<in> set (non_priority_packages g1)"
      show "stored g1 k \<noteq> None"
      proof (cases "k = p_id row")
        case True
        with r show ?thesis using row_stored_self by blast
      next
        case False
        with k row_priority(2) [OF r] have "k \<in> set (non_priority_packages g)" by auto
        with Cons.prems(4) False r show ?thesis by (simp add: row_keeps_fresh)
      qed
    qed
    show "pools_ok g1"
      using Cons.prems(5) _ Cons.prems(4) r
    proof (rule pools_ok_row)
      show "stored g (p_id row) = None" using Cons.prems(3) by simp
    qed
  qed
qed

lemma startup_pools_ok:
  assumes "startup location_rows package_rows = Return (num_packages, g)"
    and "distinct (map p_id package_rows)"
  shows "pools_ok g"
proof -
  let ?g0 = "load_location_data location_rows empty_globals"
  from assms(1) have "load_package_rows package_rows (0, ?g0) = Return (num_packages, g)"
    by (simp add: startup_def load_package_data_def)
  then show ?thesis using assms(2)
  proof (rule load_package_rows_pools_ok)
    show "\<forall>row \<in> set package_rows. stored ?g0 (p_id row) = None"
      by (simp add: stored_empty_globals)
    show "\<forall>k \<in> set (non_priority_packages ?g0). stored ?g0 k \<noteq> None"
      by (simp add: load_location_data_def empty_globals_def)
    show "pools_ok ?g0"
      by (simp add: pools_ok_def keyed_def stored_empty_globals)
         (simp add: load_location_data_def empty_globals_def)
  qed
qed

text \<open>Only the truck being drained has packages aboard, unless the run has aborted.\<close>

definition calm :: "Config \<Rightarrow> bool" where
  "calm c \<longleftrightarrow> (\<exists>e. control c = Aborted e) \<or> quiet (control c) (trucks c)"

lemma calm_after_raise: "calm (after_call c i k (Raise e s))"
  by (simp add: calm_def after_call_control)

lemma calm_after_return:
  "quiet k ((trucks c)[i := fst s]) \<Longrightarrow> calm (after_call c i k (Return s))"
  by (simp add: calm_def after_call_control)

lemma route_step_calm:
  assumes "calm c"
  shows "calm (route_step c)"
proof (cases rule: route_step_cases [of c])
  case while_more
  with assms show ?thesis by (auto simp: calm_def)
next
  case while_done
  with assms show ?thesis by (auto simp: calm_def)
next
  case (for_done i)
  with assms show ?thesis by (auto simp: calm_def)
next
  case (load i)
  from assms load have q: "\<forall>j < length (trucks c). packages (trucks c ! j) = []"
    by (simp add: calm_def)
  let ?r = "load_truck (trucks c ! i) (priority_packages (globals c))
      (non_priority_packages (globals c)) (globals c)"
  show ?thesis
  proof (cases ?r)
    case (Raise e s)
    with load show ?thesis by (simp add: calm_after_raise)
  next
    case (Return s)
    have "quiet (AtDrain i) ((trucks c)[i := fst s])" using load q by simp
    with load Return show ?thesis by (simp add: calm_after_return)
  qed
next
  case (choose_raises i e)
  then show ?thesis by (simp add: calm_def)
next
  case (deliver i d)
  from assms deliver have i: "i < length (trucks c)"
    and q: "\<forall>j < length (trucks c). j \<noteq> i \<longrightarrow> packages (trucks c ! j) = []"
    by (simp_all add: calm_def)
  let ?r = "deliver_package (trucks c ! i) d (pool_remove d (globals c))"
  show ?thesis
  proof (cases ?r)
    case (Raise e s)
    with deliver show ?thesis by (simp add: calm_after_raise)
  next
    case (Return s)
    have "quiet (AtDrain i) ((trucks c)[i := fst s])" using i q by simp
    with deliver Return show ?thesis by (simp add: calm_after_return)
  qed
next
  case (hub i)
  from assms hub have i: "i < length (trucks c)"
    and q: "\<forall>j < length (trucks c). j \<noteq> i \<longrightarrow> packages (trucks c ! j) = []"
    by (simp_all add: calm_def)
  let ?r = "return_to_hub (trucks c ! i) (globals c)"
  show ?thesis
  proof (cases ?r)
    case (Raise e s)
    with hub show ?thesis by (simp add: calm_after_raise)
  next
    case (Return s)
    with hub have "packages (fst s) = []"
      using return_to_hub_final(1) [of "trucks c ! i" "globals c"] by simp
    then have "packages (((trucks c)[i := fst s]) ! j) = []" if "j < length (trucks c)" for j
      using that q i by (cases "j = i") simp_all
    then have "quiet (AtFor (Suc i)) ((trucks c)[i := fst s])" by simp
    with hub Return show ?thesis by (simp add: calm_after_return)
  qed
next
  case stopped
  with assms show ?thesis by simp
qed

lemma run_calm: "calm c \<Longrightarrow> calm (run n c)"
  by (induction n arbitrary: c) (simp_all add: route_step_calm)

lemma entry_calm: "\<forall>truck \<in> set ts. packages truck = [] \<Longrightarrow> calm (route_packages_entry ts g)"
  by (simp add: calm_def route_packages_entry_def)

text \<open>
  In a pass that starts with an empty manifest, the priority loop keeps every non-zero
  group whole: a manifest with one id of the group has all its ids of the priority
  list.
\<close>

definition whole_groups :: "Globals \<Rightarrow> int list \<Rightarrow> int list \<Rightarrow> bool" where
  "whole_groups g L m \<longleftrightarrow>
     (\<forall>group_id. group_id \<noteq> 0 \<longrightarrow>
        (\<forall>k \<in> set m. group_of g k = Some group_id \<longrightarrow> set (members g group_id L) \<subseteq> set m))"

lemma candidate_group_of: "candidate self g p group_id \<Longrightarrow> group_of g p = Some group_id"
  by (auto simp: candidate_def group_of_def)

lemma members_group_of:
  "k \<in> set (members g group_id ids) \<longleftrightarrow> k \<in> set ids \<and> group_of g k = Some group_id"
  by (simp add: members_def)

lemma prefix_whole_groups:
  assumes stored: "\<forall>k \<in> set L. stored g k \<noteq> None" and empty: "packages self = []"
    and pre: "load_priority L pre self g = Return (s1, g1)"
  shows "\<exists>a. (s1, g1) = loaded self a g \<and> whole_groups g L a"
proof -
  have "\<exists>added. final (load_priority L pre self g) = loaded self added g
      \<and> whole_groups g L (packages self @ added)"
  proof (rule load_priority_rule [where I = "whole_groups g L"])
    show "whole_groups g L (packages self)" by (simp add: empty whole_groups_def)
  next
    fix m p
    assume m: "whole_groups g L m" and c: "candidate self g p 0"
    from c have "group_of g p = Some 0" by (rule candidate_group_of)
    with m show "whole_groups g L (m @ [p])" by (auto simp: whole_groups_def)
  next
    fix m p group_id c added rest'
    assume m: "whole_groups g L m" and mem: "members g group_id L = added @ rest'"
      and "rest' = [] \<or> (\<exists>k \<in> set L. stored g k = None)"
    with stored have added: "added = members g group_id L" by auto
    show "whole_groups g L (m @ added)"
      unfolding whole_groups_def
    proof (intro allI impI ballI)
      fix gid k
      assume gid: "gid \<noteq> 0" and k: "k \<in> set (m @ added)" and grp: "group_of g k = Some gid"
      show "set (members g gid L) \<subseteq> set (m @ added)"
      proof (cases "k \<in> set m")
        case True
        with m gid grp show ?thesis by (auto simp: whole_groups_def)
      next
        case False
        with k have "k \<in> set (members g group_id L)" by (simp add: added)
        then have "group_of g k = Some group_id" by (simp add: members_group_of)
        with grp have "gid = group_id" by simp
        then show ?thesis by (simp add: added)
      qed
    qed
  qed
  with pre show ?thesis by (auto simp: empty)
qed

text \<open>
  A group that does not fit when one of its ids is visited: no package of the group is
  in the manifest that the pass leaves.
\<close>

lemma group_too_big_none_loaded:
  assumes ok: "pools_ok g" and empty: "packages self = []"
    and L: "priority_packages g = pre @ p # rest"
    and pre: "load_priority (priority_packages g) pre self g = Return (s1, g1)"
    and p: "p \<notin> set (packages s1)" and cand: "candidate self g p group_id"
    and gid: "group_id \<noteq> 0" and cnt: "group_count_dictionary g group_id = Some c"
    and big: "\<not> int (length (packages s1)) + c \<le> 16"
  shows "\<forall>k \<in> set (packages (fst (final
           (load_truck self (priority_packages g) (non_priority_packages g) g)))).
           group_of g k \<noteq> Some group_id"
proof -
  let ?L = "priority_packages g" and ?N = "non_priority_packages g"
  from ok have stored: "\<forall>k \<in> set ?L. stored g k \<noteq> None" and keyed: "keyed g"
    and non: "\<forall>k \<in> set ?N. group_of g k = Some 0"
    by (simp_all add: pools_ok_def)
  from prefix_whole_groups [OF stored empty pre] obtain a where
    s1: "(s1, g1) = loaded self a g" and whole: "whole_groups g ?L a" by blast
  from s1 have s1': "s1 = fst (loaded self a g)" and g1': "g1 = snd (loaded self a g)"
    by (metis fst_conv, metis snd_conv)
  from s1' empty have m1: "packages s1 = a" by simp
  have none: "\<forall>k \<in> set a. group_of g k \<noteq> Some group_id"
  proof
    fix k assume k: "k \<in> set a"
    show "group_of g k \<noteq> Some group_id"
    proof
      assume "group_of g k = Some group_id"
      with whole gid k have "set (members g group_id ?L) \<subseteq> set a"
        by (auto simp: whole_groups_def)
      moreover from cand L have "p \<in> set (members g group_id ?L)"
        by (simp add: members_group_of candidate_group_of)
      ultimately show False using p m1 by auto
    qed
  qed
  let ?I = "\<lambda>m. length a \<le> length m \<and> (\<forall>k \<in> set m. group_of g k \<noteq> Some group_id)"
  have "load_truck self ?L ?N g = rest_of_pass ?L (p # rest) ?N s1 g1"
    using rest_of_pass_append [OF pre, of "p # rest" ?N] L by (simp add: load_truck_rest_of_pass)
  moreover have "\<exists>added. final (rest_of_pass ?L (p # rest) ?N s1 g1) = loaded s1 added g1
      \<and> ?I (packages s1 @ added)"
  proof (rule rest_of_pass_rule [where I = ?I])
    show "?I (packages s1)" using none m1 by simp
  next
    fix m q
    assume "?I m" and "candidate s1 g1 q 0"
    then have "group_of g q = Some 0" using candidate_group_of [of self g q 0]
      by (simp add: s1' g1')
    with \<open>?I m\<close> gid show "?I (m @ [q])" by auto
  next
    fix m q gid' c' added rest'
    assume m: "?I m" and c': "group_count_dictionary g1 gid' = Some c'"
      and fits: "int (length m) + c' \<le> 16"
      and mem: "members g1 gid' ?L = added @ rest'"
    have "gid' \<noteq> group_id"
    proof
      assume "gid' = group_id"
      with c' cnt have "c' = c" by (simp add: g1')
      with fits m big m1 show False by simp
    qed
    moreover have "group_of g k = Some gid'" if "k \<in> set added" for k
    proof -
      from that mem have "k \<in> set (members g gid' ?L)" by (simp add: g1')
      then show ?thesis by (simp add: members_group_of)
    qed
    ultimately show "?I (m @ added)" using m by auto
  next
    fix m q j
    assume m: "?I m" and q: "q \<in> set ?N" and r: "ready s1 g1 q j"
    from r have "ready self g q j" by (simp add: s1' g1')
    then obtain package where "stored g q = Some package" "p_id package = j"
      by (auto simp: ready_def)
    with keyed have "j = q" by (auto simp: keyed_def)
    with non q gid have "group_of g j \<noteq> Some group_id" by auto
    with m show "?I (m @ [j])" by auto
  qed
  ultimately show ?thesis by auto
qed

text \<open>
  A group that fits when one of its ids is visited: every id of the priority list with
  the group is in the manifest that the pass leaves, stamped with the truck's clock.
\<close>

lemma group_fits_all_loaded:
  assumes ok: "pools_ok g"
    and L: "priority_packages g = pre @ p # rest"
    and pre: "load_priority (priority_packages g) pre self g = Return (s1, g1)"
    and len: "length (packages s1) \<noteq> 16"
    and p: "p \<notin> set (packages s1)" and cand: "candidate self g p group_id"
    and gid: "group_id \<noteq> 0" and cnt: "group_count_dictionary g group_id = Some c"
    and fits: "int (length (packages s1)) + c \<le> 16"
    and k: "k \<in> set (priority_packages g)" and grp: "group_of g k = Some group_id"
  shows "k \<in> set (packages (fst (final
           (load_truck self (priority_packages g) (non_priority_packages g) g))))
       \<and> map_option time_pickup (stored (snd (final
           (load_truck self (priority_packages g) (non_priority_packages g) g))) k)
           = Some (truck_time self)"
proof -
  let ?L = "priority_packages g" and ?N = "non_priority_packages g"
  let ?M = "members g group_id ?L"
  from ok have stored: "\<forall>k \<in> set ?L. stored g k \<noteq> None" by (simp add: pools_ok_def)
  from load_priority_loaded [of ?L pre self g] pre obtain a where
    s1: "(s1, g1) = loaded self a g" by auto
  from s1 have s1': "s1 = fst (loaded self a g)" and g1': "g1 = snd (loaded self a g)"
    by (metis fst_conv, metis snd_conv)
  from cand have "candidate s1 g1 p group_id" by (simp add: s1' g1')
  then obtain package where st: "stored g1 p = Some package" and el: "eligible s1 package"
    and pg: "p_group package = group_id"
    by (auto simp: candidate_def)
  have c1: "group_count_dictionary g1 group_id = Some c" using cnt by (simp add: g1')
  have M1: "members g1 group_id ?L = ?M" by (simp add: g1')
  have stored1: "\<forall>k \<in> set ?L. stored g1 k \<noteq> None" using stored by (simp add: g1')
  have step: "load_priority ?L (p # rest) s1 g1 =
      load_priority ?L rest (fst (loaded s1 ?M g1)) (snd (loaded s1 ?M g1))"
  proof (cases rule: load_priority_Cons_cases [of s1 ?L p g1])
    case break
    with len show ?thesis by simp
  next
    case aboard
    with p show ?thesis by simp
  next
    case (missing e)
    with st show ?thesis by simp
  next
    case (no_count package')
    with st pg c1 show ?thesis by simp
  next
    case (ineligible package')
    with st el show ?thesis by simp
  next
    case (single package')
    with st pg gid show ?thesis by simp
  next
    case (too_big package' c')
    with st pg c1 fits show ?thesis by simp
  next
    case (admit package' c')
    with st pg M1 show ?thesis by simp
  next
    case (admit_raises package' c' e added rest')
    with stored1 show ?thesis by auto
  qed
  let ?s2 = "fst (loaded s1 ?M g1)" and ?g2 = "snd (loaded s1 ?M g1)"
  have "load_truck self ?L ?N g = rest_of_pass ?L (p # rest) ?N s1 g1"
    using rest_of_pass_append [OF pre, of "p # rest" ?N] L by (simp add: load_truck_rest_of_pass)
  also have "\<dots> = rest_of_pass ?L rest ?N ?s2 ?g2"
    by (simp only: rest_of_pass_def step)
  finally have eq: "load_truck self ?L ?N g = rest_of_pass ?L rest ?N ?s2 ?g2" .
  obtain b where b: "final (rest_of_pass ?L rest ?N ?s2 ?g2) = loaded ?s2 b ?g2"
    using rest_of_pass_loaded by blast
  have "loaded ?s2 b ?g2 = loaded s1 (?M @ b) g1" by (rule loaded_again)
  also have "\<dots> = loaded self (a @ ?M @ b) g"
    unfolding s1' g1' by (rule loaded_again)
  finally have fin: "final (load_truck self ?L ?N g) = loaded self (a @ ?M @ b) g"
    using eq b by simp
  from k grp have kM: "k \<in> set ?M" by (simp add: members_group_of)
  from grp obtain pk where pk: "stored g k = Some pk" by (auto simp: group_of_def)
  from kM have "k \<in> set (packages (fst (final (load_truck self ?L ?N g))))"
    by (simp add: fin)
  moreover from kM pk have "map_option time_pickup
      (stored (snd (final (load_truck self ?L ?N g))) k) = Some (truck_time self)"
    by (simp add: fin stored_loaded)
  ultimately show ?thesis by simp
qed

text \<open>
  A package aboard the truck being drained stays aboard that truck for as long as its id
  is in the priority list: it leaves the list in the step in which that truck delivers
  it, before the run leaves the truck's drain loop.
\<close>

definition held :: "int \<Rightarrow> nat \<Rightarrow> Config \<Rightarrow> bool" where
  "held k i c \<longleftrightarrow>
     (\<exists>e. control c = Aborted e)
     \<or> k \<notin> set (priority_packages (globals c))
     \<or> (control c = AtDrain i \<and> i < length (trucks c) \<and> k \<in> set (packages (trucks c ! i)))"

lemma route_step_priority_subset:
  "set (priority_packages (globals (route_step c))) \<subseteq> set (priority_packages (globals c))"
proof (rule route_step_rule
    [where P = "\<lambda>ts g. set (priority_packages g) \<subseteq> set (priority_packages (globals c))"])
  show "set (priority_packages (globals c)) \<subseteq> set (priority_packages (globals c))" by simp
next
  fix i
  let ?r = "load_truck (trucks c ! i) (priority_packages (globals c))
      (non_priority_packages (globals c)) (globals c)"
  obtain added where "final ?r = loaded (trucks c ! i) added (globals c)"
    using load_truck_loaded by blast
  then show "set (priority_packages (snd (final ?r))) \<subseteq> set (priority_packages (globals c))"
    by simp
next
  fix i d
  show "set (priority_packages (snd (final (deliver_package (trucks c ! i) d
      (pool_remove d (globals c)))))) \<subseteq> set (priority_packages (globals c))"
    using deliver_package_globals [of "trucks c ! i" d "pool_remove d (globals c)"]
      pool_remove_pools(2) [of d "globals c"]
    by auto
next
  fix i
  show "set (priority_packages (snd (final (return_to_hub (trucks c ! i) (globals c)))))
      \<subseteq> set (priority_packages (globals c))"
    by (simp add: return_to_hub_final)
qed

lemma route_step_held:
  assumes ok: "pools_ok (globals c)" and h: "held k i c"
  shows "held k i (route_step c)"
proof (cases "\<exists>e. control c = Aborted e")
  case True
  then have "route_step c = c" by (auto simp: route_step_def)
  with h show ?thesis by simp
next
  case running: False
  show ?thesis
  proof (cases "k \<in> set (priority_packages (globals c))")
    case False
    with route_step_priority_subset [of c] show ?thesis by (auto simp: held_def)
  next
    case pend: True
    with h running have at: "control c = AtDrain i" and i: "i < length (trucks c)"
      and k: "k \<in> set (packages (trucks c ! i))"
      by (auto simp: held_def)
    let ?self = "trucks c ! i" and ?g = "globals c"
    show ?thesis
    proof (cases rule: route_step_cases [of c])
      case (choose_raises i' e)
      then show ?thesis by (simp add: held_def)
    next
      case (deliver i' d)
      with at have i': "i' = i" by simp
      let ?g1 = "pool_remove d ?g"
      show ?thesis
      proof (cases rule: deliver_package_cases [of ?g1 d ?self])
        case (missing e)
        with deliver i' show ?thesis by (simp add: held_def after_call_control)
      next
        case (stuck e package)
        with deliver i' show ?thesis by (simp add: held_def after_call_control)
      next
        case (not_aboard package dist)
        with deliver i' show ?thesis by (simp add: held_def after_call_control)
      next
        case (delivers package dist)
        let ?self' = "(driven ?self (loc_id package) dist)\<lparr>packages := remove1 d (packages ?self)\<rparr>"
        from deliver i' delivers have ctl: "control (route_step c) = AtDrain i"
          and ts: "trucks (route_step c) = (trucks c)[i := ?self']"
          and g: "priority_packages (globals (route_step c)) = priority_packages ?g1"
          by (simp_all add: after_call_control)
        show ?thesis
        proof (cases "d = k")
          case True
          with pend have "priority_packages ?g1 = remove1 k (priority_packages ?g)"
            by (simp add: pool_remove_def)
          moreover from ok have "distinct (priority_packages ?g)" by (simp add: pools_ok_def)
          ultimately have "k \<notin> set (priority_packages ?g1)" by simp
          with g show ?thesis by (simp add: held_def)
        next
          case False
          with k have "k \<in> set (remove1 d (packages ?self))" by simp
          with ctl ts i show ?thesis by (simp add: held_def)
        qed
      qed
    next
      case (hub i')
      with at k show ?thesis by simp
    qed (use at in simp_all)
  qed
qed

lemma run_held:
  "pools_ok (globals c) \<Longrightarrow> held k i c \<Longrightarrow> held k i (run m c)"
proof (induction m arbitrary: c)
  case 0
  then show ?case by simp
next
  case (Suc m)
  from Suc.prems have "pools_ok (globals (route_step c))" and "held k i (route_step c)"
    by (simp_all add: route_step_pools_ok route_step_held)
  then show ?case using Suc.IH by simp
qed

text \<open>Seventeen packages of one group: one more than a truck holds.\<close>

definition ex_group_of_17 :: "Package list" where
  "ex_group_of_17 =
     map (\<lambda>i. ex_row i ''195 W Oakland Ave'' 7 0 (time_of_day 8 0 0) (time_of_day 23 59 59))
       [1, 2, 3, 4, 5, 6, 7, 8, 9, 10, 11, 12, 13, 14, 15, 16, 17]"

text \<open>
  C5. The state is one that \<open>route_packages\<close> reaches from the input files (package ids
  distinct) with trucks that start empty, at the point where truck \<open>i\<close> is about to
  load (\<open>c\<close>, so that \<open>route_step c\<close> is the loading pass). A non-zero group is
  encountered in the pass when the priority loop, having gone through the ids \<open>pre\<close>
  before it, visits an id \<open>p\<close> that is not aboard, passes the tests on the required truck
  and the availability and has that group, with the manifest not full. Then, for every
  id \<open>k\<close> of the priority list with that group: if the manifest size at that moment plus
  the precomputed group size exceeds 16, \<open>k\<close> is not in the truck's manifest after the
  pass; otherwise \<open>k\<close> is in that truck's manifest after the pass, its pickup timestamp
  is the truck's clock, and for as long afterwards as \<open>k\<close> is in the priority list (it
  leaves the list when it is delivered) the run is draining that same truck with \<open>k\<close>
  aboard it, unless an exception has ended the run.
\<close>

theorem group_admission_is_atomic:
  assumes "startup location_rows package_rows = Return (num_packages, g0)"
    and "distinct (map p_id package_rows)"
    and "\<forall>truck \<in> set ts. packages truck = []"
    and "c = run n (route_packages_entry ts g0)"
    and "control c = AtFor i" and "i < length (trucks c)"
    and "priority_packages (globals c) = pre @ p # rest"
    and "load_priority (priority_packages (globals c)) pre (trucks c ! i) (globals c)
           = Return (s1, g1)"
    and "length (packages s1) \<noteq> 16" and "p \<notin> set (packages s1)"
    and "candidate (trucks c ! i) (globals c) p group_id" and "group_id \<noteq> 0"
    and "group_count_dictionary (globals c) group_id = Some group_size"
    and "k \<in> set (priority_packages (globals c))"
    and "group_of (globals c) k = Some group_id"
  shows "(\<not> int (length (packages s1)) + group_size \<le> 16 \<longrightarrow>
            k \<notin> set (packages (trucks (route_step c) ! i)))
       \<and> (int (length (packages s1)) + group_size \<le> 16 \<longrightarrow>
            k \<in> set (packages (trucks (route_step c) ! i))
            \<and> map_option time_pickup (stored (globals (route_step c)) k)
                = Some (truck_time (trucks c ! i))
            \<and> (\<forall>m. k \<in> set (priority_packages (globals (run m (route_step c)))) \<longrightarrow>
                  (\<exists>e. control (run m (route_step c)) = Aborted e)
                  \<or> (control (run m (route_step c)) = AtDrain i
                     \<and> k \<in> set (packages (trucks (run m (route_step c)) ! i)))))"
proof -
  let ?self = "trucks c ! i" and ?g = "globals c"
  let ?r = "load_truck ?self (priority_packages ?g) (non_priority_packages ?g) ?g"
  from assms(1,2) have "pools_ok g0" by (rule startup_pools_ok)
  then have ok: "pools_ok ?g"
    unfolding assms(4) by (intro run_pools_ok) (simp add: route_packages_entry_def)
  from assms(3) have "calm (route_packages_entry ts g0)" by (rule entry_calm)
  then have "calm c" unfolding assms(4) by (rule run_calm)
  with assms(5,6) have empty: "packages ?self = []" by (simp add: calm_def)
  have step: "route_step c = after_call c i (AtDrain i) ?r"
    using assms(5,6) by (simp add: route_step_def)
  then have truck': "trucks (route_step c) ! i = fst (final ?r)"
    and g': "globals (route_step c) = snd (final ?r)"
    using assms(6) by simp_all
  have no: "k \<notin> set (packages (trucks (route_step c) ! i))"
    if "\<not> int (length (packages s1)) + group_size \<le> 16"
    using group_too_big_none_loaded [OF ok empty assms(7,8,10,11,12,13) that] assms(15)
    unfolding truck' by auto
  have yes: "k \<in> set (packages (trucks (route_step c) ! i))
      \<and> map_option time_pickup (stored (globals (route_step c)) k) = Some (truck_time ?self)"
    if "int (length (packages s1)) + group_size \<le> 16"
    using group_fits_all_loaded [OF ok assms(7,8,9,10,11,12,13) that assms(14,15)]
    unfolding truck' g' .
  have stays: "(\<exists>e. control (run m (route_step c)) = Aborted e)
      \<or> (control (run m (route_step c)) = AtDrain i
         \<and> k \<in> set (packages (trucks (run m (route_step c)) ! i)))"
    if fits: "int (length (packages s1)) + group_size \<le> 16"
      and pend: "k \<in> set (priority_packages (globals (run m (route_step c))))" for m
  proof -
    from ok have ok': "pools_ok (globals (route_step c))" by (rule route_step_pools_ok)
    have "held k i (route_step c)"
    proof (cases ?r)
      case (Raise e s)
      with step show ?thesis by (simp add: held_def after_call_control)
    next
      case (Return s)
      with step have "control (route_step c) = AtDrain i" by (simp add: after_call_control)
      moreover from step assms(6) have "i < length (trucks (route_step c))" by simp
      ultimately show ?thesis using yes [OF fits] by (simp add: held_def)
    qed
    with ok' have "held k i (run m (route_step c))" by (rule run_held)
    with pend show ?thesis by (auto simp: held_def)
  qed
  from no yes stays show ?thesis by blast
qed

text \<open>
  Two runs at the first loading pass of truck 1, with the group's first id visited at
  the head of the priority list and the manifest empty: the group of two is admitted
  (its second id is aboard, stamped 08:00, and one step later the first is still on the
  list and aboard), the group of seventeen is not (its fifth id is not aboard).
\<close>

theorem group_admission_is_atomic_witness:
  "(let c = run 1 (route_packages_entry truck_list (ex_globals ex_group_affinity));
        c17 = run 1 (route_packages_entry truck_list (ex_globals ex_group_of_17))
    in control c = AtFor 0
       \<and> priority_packages (globals c) = [] @ 1 # [2]
       \<and> candidate (trucks c ! 0) (globals c) 1 7
       \<and> group_count_dictionary (globals c) 7 = Some 2
       \<and> group_of (globals c) 2 = Some 7
       \<and> int (length (packages (trucks c ! 0))) + 2 \<le> 16
       \<and> 2 \<in> set (packages (trucks (route_step c) ! 0))
       \<and> map_option time_pickup (stored (globals (route_step c)) 2) = Some (time_of_day 8 0 0)
       \<and> 1 \<in> set (priority_packages (globals (run 1 (route_step c))))
       \<and> control (run 1 (route_step c)) = AtDrain 0
       \<and> 1 \<in> set (packages (trucks (run 1 (route_step c)) ! 0))
       \<and> control c17 = AtFor 0
       \<and> candidate (trucks c17 ! 0) (globals c17) 1 7
       \<and> group_count_dictionary (globals c17) 7 = Some 17
       \<and> group_of (globals c17) 5 = Some 7
       \<and> \<not> int (length (packages (trucks c17 ! 0))) + 17 \<le> 16
       \<and> 5 \<notin> set (packages (trucks (route_step c17) ! 0)))"
proof -
  let ?g0 = "ex_globals ex_group_affinity"
  let ?c = "run 1 (route_packages_entry truck_list ?g0)"
  have "returned (startup ex_locations ex_group_affinity)" by code_simp
  moreover have "fst (final (startup ex_locations ex_group_affinity)) = 2" by code_simp
  ultimately have s: "startup ex_locations ex_group_affinity = Return (2, ?g0)"
    by (cases "startup ex_locations ex_group_affinity") (auto simp: ex_globals_def)
  have d: "distinct (map p_id ex_group_affinity)" by code_simp
  have t: "\<forall>truck \<in> set truck_list. packages truck = []" by code_simp
  have at: "control ?c = AtFor 0" by code_simp
  have i: "0 < length (trucks ?c)" by code_simp
  have L: "priority_packages (globals ?c) = [] @ 1 # [2]" by code_simp
  have pre: "load_priority (priority_packages (globals ?c)) [] (trucks ?c ! 0) (globals ?c)
      = Return (trucks ?c ! 0, globals ?c)" by simp
  have len: "length (packages (trucks ?c ! 0)) \<noteq> 16" by code_simp
  have p: "1 \<notin> set (packages (trucks ?c ! 0))" by code_simp
  have "map_option (\<lambda>pk. (eligible (trucks ?c ! 0) pk, p_group pk)) (stored (globals ?c) 1)
      = Some (True, 7)" by code_simp
  then have cand: "candidate (trucks ?c ! 0) (globals ?c) 1 7"
    by (auto simp: candidate_def)
  have gid: "(7::int) \<noteq> 0" by simp
  have cnt: "group_count_dictionary (globals ?c) 7 = Some 2" by code_simp
  have k2: "2 \<in> set (priority_packages (globals ?c))" by code_simp
  have grp2: "group_of (globals ?c) 2 = Some 7" by code_simp
  have k1: "1 \<in> set (priority_packages (globals ?c))" by code_simp
  have grp1: "group_of (globals ?c) 1 = Some 7" by code_simp
  have fits: "int (length (packages (trucks ?c ! 0))) + 2 \<le> 16" by code_simp
  have clock: "truck_time (trucks ?c ! 0) = time_of_day 8 0 0" by code_simp
  have pend1: "1 \<in> set (priority_packages (globals (run 1 (route_step ?c))))" by code_simp
  have not_aborted: "\<forall>e. control (run 1 (route_step ?c)) \<noteq> Aborted e"
  proof -
    have "control (run 1 (route_step ?c)) = AtDrain 0" by code_simp
    then show ?thesis by simp
  qed
  from group_admission_is_atomic [OF s d t refl at i L pre len p cand gid cnt k2 grp2] fits clock
  have a2: "2 \<in> set (packages (trucks (route_step ?c) ! 0))"
    and b2: "map_option time_pickup (stored (globals (route_step ?c)) 2) = Some (time_of_day 8 0 0)"
    by simp_all
  from group_admission_is_atomic [OF s d t refl at i L pre len p cand gid cnt k1 grp1] fits
  have "\<forall>m. 1 \<in> set (priority_packages (globals (run m (route_step ?c)))) \<longrightarrow>
      (\<exists>e. control (run m (route_step ?c)) = Aborted e)
      \<or> (control (run m (route_step ?c)) = AtDrain 0
         \<and> 1 \<in> set (packages (trucks (run m (route_step ?c)) ! 0)))"
    by blast
  with pend1 not_aborted have d1: "control (run 1 (route_step ?c)) = AtDrain 0"
    "1 \<in> set (packages (trucks (run 1 (route_step ?c)) ! 0))"
    by blast+
  let ?h0 = "ex_globals ex_group_of_17"
  let ?c17 = "run 1 (route_packages_entry truck_list ?h0)"
  have "returned (startup ex_locations ex_group_of_17)" by code_simp
  moreover have "fst (final (startup ex_locations ex_group_of_17)) = 17" by code_simp
  ultimately have s': "startup ex_locations ex_group_of_17 = Return (17, ?h0)"
    by (cases "startup ex_locations ex_group_of_17") (auto simp: ex_globals_def)
  have d': "distinct (map p_id ex_group_of_17)" by code_simp
  have at': "control ?c17 = AtFor 0" by code_simp
  have i': "0 < length (trucks ?c17)" by code_simp
  have L': "priority_packages (globals ?c17)
      = [] @ 1 # [2, 3, 4, 5, 6, 7, 8, 9, 10, 11, 12, 13, 14, 15, 16, 17]" by code_simp
  have pre': "load_priority (priority_packages (globals ?c17)) [] (trucks ?c17 ! 0) (globals ?c17)
      = Return (trucks ?c17 ! 0, globals ?c17)" by simp
  have len': "length (packages (trucks ?c17 ! 0)) \<noteq> 16" by code_simp
  have p': "1 \<notin> set (packages (trucks ?c17 ! 0))" by code_simp
  have "map_option (\<lambda>pk. (eligible (trucks ?c17 ! 0) pk, p_group pk)) (stored (globals ?c17) 1)
      = Some (True, 7)" by code_simp
  then have cand': "candidate (trucks ?c17 ! 0) (globals ?c17) 1 7"
    by (auto simp: candidate_def)
  have cnt': "group_count_dictionary (globals ?c17) 7 = Some 17" by code_simp
  have k5: "5 \<in> set (priority_packages (globals ?c17))" by code_simp
  have grp5: "group_of (globals ?c17) 5 = Some 7" by code_simp
  have big: "\<not> int (length (packages (trucks ?c17 ! 0))) + 17 \<le> 16" by code_simp
  from group_admission_is_atomic [OF s' d' t refl at' i' L' pre' len' p' cand' gid cnt' k5 grp5] big
  have n5: "5 \<notin> set (packages (trucks (route_step ?c17) ! 0))" by simp
  show ?thesis
    unfolding Let_def
    by (intro conjI at L cand cnt grp2 fits a2 b2 pend1 d1 at' cand' cnt' grp5 big n5)
qed

end
